theory Spec2Isabelle
  imports Main "HOL-Library.Word"
begin

unbundle bit_operations_syntax

section \<open>Constants and machine arithmetic\<close>

text \<open>
  The target is an ATmega88 built with avr-g++: \<open>int\<close> has 16 bits, \<open>uint8_t\<close> 8 and
  \<open>uint32_t\<close> 32. The \<open>int\<close> members of \<open>game_manager\<close> are modelled as
  mathematical integers; signed overflow is undefined in C++ and the lemma
  \<open>reachable_inv\<close> below shows that every member stays far inside the 16-bit range in
  every state the program can reach. The unsigned values (\<open>global_timer\<close>, the latched
  display value, the high score byte, the port registers) are words and wrap around.
\<close>

type_synonym u8 = "8 word"
type_synonym u32 = "32 word"

definition MAX_SCORE :: int where
  "MAX_SCORE = 99"

definition FRAME_PER_SEC :: int where
  "FRAME_PER_SEC = 500"

text \<open>Division and remainder of C++: the quotient is truncated towards zero.\<close>

definition c_div :: "int \<Rightarrow> int \<Rightarrow> int" where
  "c_div a b = sgn a * sgn b * (\<bar>a\<bar> div \<bar>b\<bar>)"

definition c_rem :: "int \<Rightarrow> int \<Rightarrow> int" where
  "c_rem a b = a - b * c_div a b"

section \<open>Output pins on the port registers\<close>

datatype port = PORTB | PORTC | PORTD

record output_pin =
  m_port :: port
  m_bit :: nat

definition pin :: "port \<Rightarrow> nat \<Rightarrow> output_pin" where
  "pin p b = \<lparr>m_port = p, m_bit = b\<rparr>"

datatype update_func = Ready_to_start | Show_high_score | Playing | Show_score_blink | Show_score

text \<open>
  All objects of the program are singletons with static storage; their members are the
  fields of one record. \<open>high_score_eeprom\<close> is the EEPROM cell and \<open>eeprom_writes\<close>
  the list of bytes handed to \<open>eeprom_write_byte\<close> so far, oldest first.
\<close>

record machine =
  global_timer :: u32
  portb :: u8
  portc :: u8
  portd :: u8
  \<comment> \<open>\<open>seven_segments_dynamic<2> score_display\<close>\<close>
  m_valid :: bool
  m_value :: u32
  m_now_digit :: int
  \<comment> \<open>\<open>game_bar bar\<close>\<close>
  m_pos :: int
  \<comment> \<open>\<open>high_score_manager\<close> and the EEPROM behind it\<close>
  m_high_score :: u8
  high_score_eeprom :: u8
  eeprom_writes :: "u8 list"
  \<comment> \<open>\<open>game_manager\<close>\<close>
  m_update_func :: update_func
  m_score :: int
  m_position :: int
  m_bar_count :: int
  m_bar_speed_recip :: int
  m_button_invalid_time :: int
  m_update_high_score :: bool
  m_blink_count :: int

text \<open>
  What one run of the interrupt handler reads from outside: the three switch pins
  (\<open>read()\<close> is true while the switch is released: the pins are pulled up) and the
  value the C library's \<open>rand()\<close> returns if the handler calls it (every handler calls
  it at most once). \<open>rand()\<close> returns a value between 0 and \<open>RAND_MAX\<close>, hence a
  natural number. A pin keeps its level during one run of the handler.
\<close>

record inputs =
  game_switch :: bool
  high_score_switch :: bool
  erase_score_switch :: bool
  rand_value :: nat

definition read_port :: "port \<Rightarrow> machine \<Rightarrow> u8" where
  "read_port p s = (case p of PORTB \<Rightarrow> portb s | PORTC \<Rightarrow> portc s | PORTD \<Rightarrow> portd s)"

definition write_port :: "port \<Rightarrow> u8 \<Rightarrow> machine \<Rightarrow> machine" where
  "write_port p v s =
     (case p of PORTB \<Rightarrow> s\<lparr>portb := v\<rparr> | PORTC \<Rightarrow> s\<lparr>portc := v\<rparr> | PORTD \<Rightarrow> s\<lparr>portd := v\<rparr>)"

text \<open>\<open>output_pin::set\<close> and \<open>output_pin::reset\<close>; \<open>_BV(b)\<close> is \<open>1 << b\<close>.\<close>

definition output_pin_set :: "output_pin \<Rightarrow> machine \<Rightarrow> machine" where
  "output_pin_set p s = write_port (m_port p) (read_port (m_port p) s OR push_bit (m_bit p) 1) s"

definition output_pin_reset :: "output_pin \<Rightarrow> machine \<Rightarrow> machine" where
  "output_pin_reset p s =
     write_port (m_port p) (read_port (m_port p) s AND NOT (push_bit (m_bit p) 1)) s"

text \<open>The level of an output line: true when the port bit is 1.\<close>

definition pin_level :: "output_pin \<Rightarrow> machine \<Rightarrow> bool" where
  "pin_level p s = bit (read_port (m_port p) s) (m_bit p)"

text \<open>
  A handler's effect on the ports is a sequence of pin writes. Where the order of the
  writes matters the sequence is kept as a list and run with \<open>apply_writes\<close>.
\<close>

datatype pin_write = Set_pin output_pin | Reset_pin output_pin

fun apply_write :: "pin_write \<Rightarrow> machine \<Rightarrow> machine" where
  "apply_write (Set_pin p) s = output_pin_set p s"
| "apply_write (Reset_pin p) s = output_pin_reset p s"

fun apply_writes :: "pin_write list \<Rightarrow> machine \<Rightarrow> machine" where
  "apply_writes [] s = s"
| "apply_writes (w # ws) s = apply_writes ws (apply_write w s)"

section \<open>The seven-segment digit\<close>

definition segment_data :: "u8 list" where
  "segment_data =
     [0x01 OR 0x02 OR 0x04 OR 0x08 OR 0x10 OR 0x20,
      0x02 OR 0x04,
      0x01 OR 0x02 OR 0x08 OR 0x10 OR 0x40,
      0x01 OR 0x02 OR 0x04 OR 0x08 OR 0x40,
      0x02 OR 0x04 OR 0x20 OR 0x40,
      0x01 OR 0x04 OR 0x08 OR 0x20 OR 0x40,
      0x01 OR 0x04 OR 0x08 OR 0x10 OR 0x20 OR 0x40,
      0x01 OR 0x02 OR 0x04 OR 0x20,
      0x01 OR 0x02 OR 0x04 OR 0x08 OR 0x10 OR 0x20 OR 0x40,
      0x01 OR 0x02 OR 0x04 OR 0x08 OR 0x20 OR 0x40]"

text \<open>The pins of \<open>score_display\<close>: segments A to G, then the two cathodes.\<close>

definition display_pin :: "output_pin list" where
  "display_pin = [pin PORTD 1, pin PORTD 0, pin PORTD 7, pin PORTD 6, pin PORTD 5,
                  pin PORTD 3, pin PORTD 2]"

definition m_cathode :: "output_pin list" where
  "m_cathode = [pin PORTB 7, pin PORTB 6]"

definition Digit :: int where
  "Digit = 2"

text \<open>\<open>seven_segments::set_number\<close>: the pin writes of the loop, in order.\<close>

definition seven_segments_set_number_writes :: "int \<Rightarrow> pin_write list" where
  "seven_segments_set_number_writes n =
     (if n < 0 \<or> n \<ge> 10 then []
      else map (\<lambda>i. if segment_data ! nat n AND push_bit i 1 \<noteq> 0
                     then Set_pin (display_pin ! i) else Reset_pin (display_pin ! i))
               [0..<7])"

definition seven_segments_set_number :: "int \<Rightarrow> machine \<Rightarrow> machine" where
  "seven_segments_set_number n s = apply_writes (seven_segments_set_number_writes n) s"

definition seven_segments_erase_number :: "machine \<Rightarrow> machine" where
  "seven_segments_erase_number s = apply_writes (map Reset_pin display_pin) s"

section \<open>The multiplexed display\<close>

fun pow10 :: "nat \<Rightarrow> u32" where
  "pow10 0 = 1"
| "pow10 (Suc n) = 10 * pow10 n"

definition erase_number :: "machine \<Rightarrow> machine" where
  "erase_number s = seven_segments_erase_number (s\<lparr>m_valid := False\<rparr>)"

definition set_number :: "u32 \<Rightarrow> machine \<Rightarrow> machine" where
  "set_number v s =
     (if v \<ge> pow10 (nat Digit) then erase_number s
      else s\<lparr>m_valid := True, m_value := v\<rparr>)"

definition score_display_init :: "machine \<Rightarrow> machine" where
  "score_display_init s = seven_segments_erase_number (apply_writes (map Set_pin m_cathode) s)"

text \<open>The slot index after \<open>++m_now_digit\<close> and the wrap at \<open>Digit\<close>.\<close>

definition next_digit :: "int \<Rightarrow> int" where
  "next_digit d = (if d + 1 = Digit then 0 else d + 1)"

text \<open>
  \<open>change_digit\<close>: the pin writes in program order, and the function itself. The digit
  is computed from the slot index after it has advanced.
\<close>

definition change_digit_number :: "machine \<Rightarrow> int" where
  "change_digit_number s =
     uint (m_value s div pow10 (nat (next_digit (m_now_digit s))) mod 10)"

definition change_digit_writes :: "machine \<Rightarrow> pin_write list" where
  "change_digit_writes s =
     Set_pin (m_cathode ! nat (m_now_digit s)) #
     (if m_valid s then seven_segments_set_number_writes (change_digit_number s) else []) @
     [Reset_pin (m_cathode ! nat (next_digit (m_now_digit s)))]"

definition change_digit :: "machine \<Rightarrow> machine" where
  "change_digit s =
     apply_writes (change_digit_writes s) (s\<lparr>m_now_digit := next_digit (m_now_digit s)\<rparr>)"

section \<open>The LED bar\<close>

definition bar_pin :: "output_pin list" where
  "bar_pin = [pin PORTB 2, pin PORTB 3, pin PORTB 4, pin PORTB 5, pin PORTC 0,
              pin PORTC 1, pin PORTC 2, pin PORTC 3, pin PORTC 4, pin PORTC 5]"

definition BAR_INVALID :: int where
  "BAR_INVALID = - 1"

definition bar_init :: "machine \<Rightarrow> machine" where
  "bar_init s = apply_writes (map Set_pin bar_pin) s"

definition set_position :: "int \<Rightarrow> machine \<Rightarrow> machine" where
  "set_position pos s =
     (if pos < 0 \<or> pos \<ge> 10 then s
      else
        let s1 = (if m_pos s \<noteq> BAR_INVALID then output_pin_set (bar_pin ! nat (m_pos s)) s else s);
            s2 = s1\<lparr>m_pos := pos\<rparr>
        in output_pin_reset (bar_pin ! nat pos) s2)"

definition bar_erase :: "machine \<Rightarrow> machine" where
  "bar_erase s =
     (if m_pos s = BAR_INVALID then s
      else (output_pin_set (bar_pin ! nat (m_pos s)) s)\<lparr>m_pos := BAR_INVALID\<rparr>)"

section \<open>The high score\<close>

text \<open>\<open>eeprom_busy_wait(); eeprom_write_byte(&high_score_eeprom, v)\<close>.\<close>

definition eeprom_write_byte :: "u8 \<Rightarrow> machine \<Rightarrow> machine" where
  "eeprom_write_byte v s = s\<lparr>high_score_eeprom := v, eeprom_writes := eeprom_writes s @ [v]\<rparr>"

definition get_high_score :: "machine \<Rightarrow> u8" where
  "get_high_score s = m_high_score s"

definition update_high_score :: "u8 \<Rightarrow> machine \<Rightarrow> machine" where
  "update_high_score score s =
     (if score > m_high_score s
      then let s1 = s\<lparr>m_high_score := score\<rparr> in eeprom_write_byte (m_high_score s1) s1
      else s)"

definition erase_hight_score :: "machine \<Rightarrow> machine" where
  "erase_hight_score s =
     (if m_high_score s = 0 then s
      else let s1 = s\<lparr>m_high_score := 0\<rparr> in eeprom_write_byte (m_high_score s1) s1)"

text \<open>The constructor of \<open>high_score_manager\<close>: the cached value is the byte read.\<close>

definition high_score_manager_init :: "machine \<Rightarrow> machine" where
  "high_score_manager_init s = s\<lparr>m_high_score := high_score_eeprom s\<rparr>"

section \<open>The game\<close>

text \<open>
  \<open>calc_speed_recip\<close>. The jitter is \<open>rand() % 40\<close>; the argument \<open>r\<close> is the value
  \<open>rand()\<close> returned.
\<close>

definition calc_speed_recip :: "nat \<Rightarrow> machine \<Rightarrow> int" where
  "calc_speed_recip r s =
     (let value = c_div ((30 - c_div (m_score s) 5) * (80 + c_rem (int r) 40) + 50) 100
      in if value \<le> 0 then 1 else value)"

text \<open>
  \<open>init_game\<close>. \<open>srand\<close> seeds the generator of the C library, whose state is not a
  part of this model: the value of the next \<open>rand()\<close> comes with the inputs.
\<close>

definition init_game :: "inputs \<Rightarrow> machine \<Rightarrow> machine" where
  "init_game i s =
     (let s1 = s\<lparr>m_score := 0\<rparr>;
          s2 = s1\<lparr>m_position := 0\<rparr>;
          s3 = s2\<lparr>m_bar_count := 0\<rparr>;
          s4 = s3\<lparr>m_bar_speed_recip := calc_speed_recip (rand_value i) s3\<rparr>
      in s4\<lparr>m_button_invalid_time := 0\<rparr>)"

definition ready_to_start :: "inputs \<Rightarrow> machine \<Rightarrow> machine" where
  "ready_to_start i s =
     (let s1 = set_number 0 s;
          s2 = set_position 0 s1;
          s3 = (if \<not> erase_score_switch i then erase_hight_score s2 else s2)
      in if \<not> game_switch i then (init_game i s3)\<lparr>m_update_func := Playing\<rparr>
         else if \<not> high_score_switch i then s3\<lparr>m_update_func := Show_high_score\<rparr>
         else s3)"

definition show_high_score :: "inputs \<Rightarrow> machine \<Rightarrow> machine" where
  "show_high_score i s =
     (let s1 = set_number (ucast (get_high_score s)) s;
          s2 = (if \<not> erase_score_switch i then erase_hight_score s1 else s1)
      in if \<not> game_switch i then (init_game i s2)\<lparr>m_update_func := Playing\<rparr>
         else s2)"

text \<open>The argument \<open>playing\<close> passes to \<open>bar.set_position\<close> (lines 365 to 371).\<close>

definition playing_bar_position :: "int \<Rightarrow> int" where
  "playing_bar_position p = (if p < 10 then p else if p < 19 then 19 - 1 - p else 0)"

text \<open>
  \<open>playing\<close> in three parts: \<open>playing_round_over\<close> is the block that ends with the
  early \<open>return\<close> (lines 377 to 385), \<open>playing_button\<close> is what follows it (lines 388
  to 399), and \<open>playing\<close> itself is the display, the dwell counter and the choice
  between the two.
\<close>

definition playing_round_over :: "machine \<Rightarrow> machine" where
  "playing_round_over s =
     (let s1 = (if m_score s > uint (get_high_score s)
                then update_high_score (word_of_int (m_score s)) (s\<lparr>m_update_high_score := True\<rparr>)
                else s\<lparr>m_update_high_score := (m_score s = MAX_SCORE)\<rparr>);
          s2 = s1\<lparr>m_update_func := Show_score_blink\<rparr>
      in s2\<lparr>m_blink_count := 0\<rparr>)"

definition playing_button :: "inputs \<Rightarrow> machine \<Rightarrow> machine" where
  "playing_button i s =
     (let s1 = (if m_position s \<ge> 16 \<and> m_button_invalid_time s = 0 \<and> \<not> game_switch i
                then let t1 = s\<lparr>m_score := m_score s + 1\<rparr>;
                         t2 = (if m_score t1 > MAX_SCORE then t1\<lparr>m_score := MAX_SCORE\<rparr> else t1);
                         t3 = t2\<lparr>m_position := 0\<rparr>;
                         t4 = t3\<lparr>m_bar_count := 0\<rparr>
                     in t4\<lparr>m_bar_speed_recip := calc_speed_recip (rand_value i) t4\<rparr>
                else s)
      in if \<not> game_switch i then s1\<lparr>m_button_invalid_time := c_div FRAME_PER_SEC 10\<rparr>
         else if m_button_invalid_time s1 > 0
         then s1\<lparr>m_button_invalid_time := m_button_invalid_time s1 - 1\<rparr>
         else s1)"

definition playing :: "inputs \<Rightarrow> machine \<Rightarrow> machine" where
  "playing i s =
     (let s1 = set_number (word_of_int (m_score s)) s;
          s2 = set_position (playing_bar_position (m_position s1)) s1;
          s3 = s2\<lparr>m_bar_count := m_bar_count s2 + 1\<rparr>
      in if m_bar_count s3 \<ge> m_bar_speed_recip s3
         then let s4 = s3\<lparr>m_bar_count := 0\<rparr>;
                  s5 = s4\<lparr>m_position := m_position s4 + 1\<rparr>
              in if m_position s5 \<ge> 19 then playing_round_over s5
                 else playing_button i s5
         else playing_button i s3)"

definition show_score_blink :: "inputs \<Rightarrow> machine \<Rightarrow> machine" where
  "show_score_blink i s =
     (let s1 = (if c_rem (m_blink_count s) FRAME_PER_SEC < c_div FRAME_PER_SEC 2
                then set_number (word_of_int (m_score s)) s
                else erase_number s);
          s2 = (if m_blink_count s1 > FRAME_PER_SEC \<and> m_update_high_score s1
                then (if c_rem (m_blink_count s1) (c_div FRAME_PER_SEC 20) = 0
                      then set_position (c_rem (int (rand_value i)) 10) s1
                      else s1)
                else bar_erase s1);
          s3 = s2\<lparr>m_blink_count := m_blink_count s2 + 1\<rparr>
      in if m_blink_count s3 \<ge> FRAME_PER_SEC * 3 then s3\<lparr>m_update_func := Show_score\<rparr>
         else s3)"

definition show_score :: "inputs \<Rightarrow> machine \<Rightarrow> machine" where
  "show_score i s =
     (let s1 = set_position 0 s;
          s2 = set_number (word_of_int (m_score s1)) s1;
          s3 = (if \<not> erase_score_switch i then erase_hight_score s2 else s2)
      in if \<not> game_switch i then (init_game i s3)\<lparr>m_update_func := Playing\<rparr>
         else if \<not> high_score_switch i then s3\<lparr>m_update_func := Show_high_score\<rparr>
         else s3)"

text \<open>\<open>game_manager::update\<close>: the call through the member function pointer.\<close>

definition update :: "inputs \<Rightarrow> machine \<Rightarrow> machine" where
  "update i s =
     (case m_update_func s of
        Ready_to_start \<Rightarrow> ready_to_start i s
      | Show_high_score \<Rightarrow> show_high_score i s
      | Playing \<Rightarrow> playing i s
      | Show_score_blink \<Rightarrow> show_score_blink i s
      | Show_score \<Rightarrow> show_score i s)"

section \<open>The interrupt handler and the start of the program\<close>

definition isr :: "inputs \<Rightarrow> machine \<Rightarrow> machine" where
  "isr i s =
     (let s1 = s\<lparr>global_timer := global_timer s + 1\<rparr>;
          s2 = (if global_timer s1 mod 4 = 0 then change_digit s1 else s1)
      in update i s2)"

text \<open>The machine after any number of timer interrupts, one element of inputs each.\<close>

fun run :: "inputs list \<Rightarrow> machine \<Rightarrow> machine" where
  "run [] s = s"
| "run (i # is) s = run is (isr i s)"

text \<open>
  The machine when \<open>main\<close> enables the interrupts. The port registers are 0 after
  reset; objects with static storage are zero-initialised before their constructors
  run. \<open>io_init\<close> turns on the pull-ups of the three inputs, then \<open>bar.init()\<close> and
  \<open>score_display.init()\<close> run. The constructor of \<open>high_score_manager\<close> runs at the
  first call of \<open>instance()\<close>; nothing writes the EEPROM cell before that, so the
  byte it reads is the one the cell holds at power-on, \<open>cell\<close>.
\<close>

definition io_init :: "machine \<Rightarrow> machine" where
  "io_init s = (s\<lparr>portd := portd s OR 0x10\<rparr>)\<lparr>portb := portb s OR 0x03\<rparr>"

definition power_on :: "u8 \<Rightarrow> machine" where
  "power_on cell =
     \<lparr>global_timer = 0, portb = 0, portc = 0, portd = 0,
      m_valid = False, m_value = 0, m_now_digit = 0,
      m_pos = BAR_INVALID,
      m_high_score = 0, high_score_eeprom = cell, eeprom_writes = [],
      m_update_func = Ready_to_start, m_score = 0, m_position = 0, m_bar_count = 0,
      m_bar_speed_recip = 0, m_button_invalid_time = 0, m_update_high_score = False,
      m_blink_count = 0\<rparr>"

definition boot :: "u8 \<Rightarrow> machine" where
  "boot cell = high_score_manager_init (score_display_init (bar_init (io_init (power_on cell))))"

section \<open>Vocabulary of the specification and invariants\<close>

text \<open>
  The difficulty model as the specification words it: the maximum of 1 and the
  truncated quotient.
\<close>

definition spec_speed_recip :: "int \<Rightarrow> int \<Rightarrow> int" where
  "spec_speed_recip score jitter =
     max 1 (c_div ((30 - c_div score 5) * (80 + jitter) + 50) 100)"

text \<open>
  Bounds on the members of \<open>game_manager\<close> that hold whenever the interrupt handler
  starts (lemma \<open>reachable_inv\<close>).
\<close>

definition game_inv :: "machine \<Rightarrow> bool" where
  "game_inv s \<longleftrightarrow>
     0 \<le> m_score s \<and> m_score s \<le> MAX_SCORE \<and>
     0 \<le> m_position s \<and> m_position s \<le> 19 \<and>
     0 \<le> m_bar_count s \<and> m_bar_count s \<le> 36 \<and>
     0 \<le> m_bar_speed_recip s \<and> m_bar_speed_recip s \<le> 36 \<and>
     0 \<le> m_button_invalid_time s \<and> m_button_invalid_time s \<le> 50 \<and>
     0 \<le> m_blink_count s \<and> m_blink_count s \<le> 1500 \<and>
     (m_update_func s = Playing \<longrightarrow>
        m_position s \<le> 18 \<and> m_bar_count s < m_bar_speed_recip s \<and> 9 \<le> m_bar_speed_recip s) \<and>
     (m_update_func s = Show_score_blink \<longrightarrow> m_blink_count s < 1500)"

text \<open>
  The scoring window as the specification words it: the displayed bar index is at
  least 6.
\<close>

definition spec_scoring_window :: "int \<Rightarrow> bool" where
  "spec_scoring_window p = (playing_bar_position p \<ge> 6)"

text \<open>
  What holds from a scoring press on, as long as the play input stays asserted: Score is
  not negative and, in the Playing state, either Lockout is at its full value or
  Position (at most 18) is too far from the scoring positions to reach them on this
  tick.
\<close>

definition held_inv :: "machine \<Rightarrow> bool" where
  "held_inv s \<longleftrightarrow>
     0 \<le> m_score s \<and>
     (m_update_func s = Playing \<longrightarrow>
        m_position s \<le> 18 \<and> (m_button_invalid_time s = 50 \<or> m_position s \<le> 14))"

text \<open>A digit-select line is active when it is driven low (common cathode).\<close>

definition cathode_active :: "nat \<Rightarrow> machine \<Rightarrow> bool" where
  "cathode_active k s = (\<not> pin_level (m_cathode ! k) s)"

text \<open>The pin a write drives.\<close>

fun write_pin :: "pin_write \<Rightarrow> output_pin" where
  "write_pin (Set_pin p) = p"
| "write_pin (Reset_pin p) = p"

text \<open>
  What \<open>change_digit\<close> relies on when it is called: the slot index is 0 or 1 and no
  digit-select line other than the one of the current slot is active.
\<close>

definition cathode_inv :: "machine \<Rightarrow> bool" where
  "cathode_inv s \<longleftrightarrow>
     (m_now_digit s = 0 \<or> m_now_digit s = 1) \<and>
     (\<forall>k < 2. int k \<noteq> m_now_digit s \<longrightarrow> \<not> cathode_active k s)"

text \<open>The bar's position is \<open>BAR_INVALID\<close> or an index of its pin array.\<close>

definition bar_inv :: "machine \<Rightarrow> bool" where
  "bar_inv s \<longleftrightarrow> m_pos s = BAR_INVALID \<or> (0 \<le> m_pos s \<and> m_pos s < 10)"

text \<open>Both together: what holds of the outputs whenever the handler starts.\<close>

definition outputs_inv :: "machine \<Rightarrow> bool" where
  "outputs_inv s \<longleftrightarrow> cathode_inv s \<and> bar_inv s"

text \<open>
  The bar's lines agree with its position: the position is \<open>BAR_INVALID\<close> or an index,
  and a line is driven low (its LED lit) exactly when it is the line of the position.
\<close>

definition bar_lines_inv :: "machine \<Rightarrow> bool" where
  "bar_lines_inv s \<longleftrightarrow>
     bar_inv s \<and> (\<forall>k < 10. (\<not> pin_level (bar_pin ! k) s) = (int k = m_pos s))"

section \<open>Pin writes leave everything but the ports alone\<close>

lemma write_port_frame [simp]:
  "global_timer (write_port p v s) = global_timer s"
  "m_valid (write_port p v s) = m_valid s"
  "m_value (write_port p v s) = m_value s"
  "m_now_digit (write_port p v s) = m_now_digit s"
  "m_pos (write_port p v s) = m_pos s"
  "m_high_score (write_port p v s) = m_high_score s"
  "high_score_eeprom (write_port p v s) = high_score_eeprom s"
  "eeprom_writes (write_port p v s) = eeprom_writes s"
  "m_update_func (write_port p v s) = m_update_func s"
  "m_score (write_port p v s) = m_score s"
  "m_position (write_port p v s) = m_position s"
  "m_bar_count (write_port p v s) = m_bar_count s"
  "m_bar_speed_recip (write_port p v s) = m_bar_speed_recip s"
  "m_button_invalid_time (write_port p v s) = m_button_invalid_time s"
  "m_update_high_score (write_port p v s) = m_update_high_score s"
  "m_blink_count (write_port p v s) = m_blink_count s"
  by (cases p; simp add: write_port_def)+

lemma read_write_port [simp]:
  "read_port q (write_port p v s) = (if q = p then v else read_port q s)"
  by (cases p; cases q; simp add: read_port_def write_port_def)

lemma pin_level_set:
  "pin_level q (output_pin_set p s) =
     (pin_level q s \<or> (m_port q = m_port p \<and> m_bit q = m_bit p \<and> m_bit p < 8))"
  by (auto simp: pin_level_def output_pin_set_def bit_simps)

lemma pin_level_reset:
  "pin_level q (output_pin_reset p s) =
     (pin_level q s \<and> \<not> (m_port q = m_port p \<and> m_bit q = m_bit p))"
  by (auto simp: pin_level_def output_pin_reset_def bit_simps dest: bit_imp_le_length)


lemma output_pin_frame [simp]:
  "global_timer (output_pin_set p s) = global_timer s"
  "m_valid (output_pin_set p s) = m_valid s"
  "m_value (output_pin_set p s) = m_value s"
  "m_now_digit (output_pin_set p s) = m_now_digit s"
  "m_pos (output_pin_set p s) = m_pos s"
  "m_high_score (output_pin_set p s) = m_high_score s"
  "high_score_eeprom (output_pin_set p s) = high_score_eeprom s"
  "eeprom_writes (output_pin_set p s) = eeprom_writes s"
  "m_update_func (output_pin_set p s) = m_update_func s"
  "m_score (output_pin_set p s) = m_score s"
  "m_position (output_pin_set p s) = m_position s"
  "m_bar_count (output_pin_set p s) = m_bar_count s"
  "m_bar_speed_recip (output_pin_set p s) = m_bar_speed_recip s"
  "m_button_invalid_time (output_pin_set p s) = m_button_invalid_time s"
  "m_update_high_score (output_pin_set p s) = m_update_high_score s"
  "m_blink_count (output_pin_set p s) = m_blink_count s"
  "global_timer (output_pin_reset p s) = global_timer s"
  "m_valid (output_pin_reset p s) = m_valid s"
  "m_value (output_pin_reset p s) = m_value s"
  "m_now_digit (output_pin_reset p s) = m_now_digit s"
  "m_pos (output_pin_reset p s) = m_pos s"
  "m_high_score (output_pin_reset p s) = m_high_score s"
  "high_score_eeprom (output_pin_reset p s) = high_score_eeprom s"
  "eeprom_writes (output_pin_reset p s) = eeprom_writes s"
  "m_update_func (output_pin_reset p s) = m_update_func s"
  "m_score (output_pin_reset p s) = m_score s"
  "m_position (output_pin_reset p s) = m_position s"
  "m_bar_count (output_pin_reset p s) = m_bar_count s"
  "m_bar_speed_recip (output_pin_reset p s) = m_bar_speed_recip s"
  "m_button_invalid_time (output_pin_reset p s) = m_button_invalid_time s"
  "m_update_high_score (output_pin_reset p s) = m_update_high_score s"
  "m_blink_count (output_pin_reset p s) = m_blink_count s"
  by (simp_all add: output_pin_set_def output_pin_reset_def)

lemma apply_write_frame [simp]:
  "global_timer (apply_write w s) = global_timer s"
  "m_valid (apply_write w s) = m_valid s"
  "m_value (apply_write w s) = m_value s"
  "m_now_digit (apply_write w s) = m_now_digit s"
  "m_pos (apply_write w s) = m_pos s"
  "m_high_score (apply_write w s) = m_high_score s"
  "high_score_eeprom (apply_write w s) = high_score_eeprom s"
  "eeprom_writes (apply_write w s) = eeprom_writes s"
  "m_update_func (apply_write w s) = m_update_func s"
  "m_score (apply_write w s) = m_score s"
  "m_position (apply_write w s) = m_position s"
  "m_bar_count (apply_write w s) = m_bar_count s"
  "m_bar_speed_recip (apply_write w s) = m_bar_speed_recip s"
  "m_button_invalid_time (apply_write w s) = m_button_invalid_time s"
  "m_update_high_score (apply_write w s) = m_update_high_score s"
  "m_blink_count (apply_write w s) = m_blink_count s"
  by (cases w; simp)+

lemma apply_writes_frame [simp]:
  "global_timer (apply_writes ws s) = global_timer s"
  "m_valid (apply_writes ws s) = m_valid s"
  "m_value (apply_writes ws s) = m_value s"
  "m_now_digit (apply_writes ws s) = m_now_digit s"
  "m_pos (apply_writes ws s) = m_pos s"
  "m_high_score (apply_writes ws s) = m_high_score s"
  "high_score_eeprom (apply_writes ws s) = high_score_eeprom s"
  "eeprom_writes (apply_writes ws s) = eeprom_writes s"
  "m_update_func (apply_writes ws s) = m_update_func s"
  "m_score (apply_writes ws s) = m_score s"
  "m_position (apply_writes ws s) = m_position s"
  "m_bar_count (apply_writes ws s) = m_bar_count s"
  "m_bar_speed_recip (apply_writes ws s) = m_bar_speed_recip s"
  "m_button_invalid_time (apply_writes ws s) = m_button_invalid_time s"
  "m_update_high_score (apply_writes ws s) = m_update_high_score s"
  "m_blink_count (apply_writes ws s) = m_blink_count s"
  by (induction ws arbitrary: s; simp)+

section \<open>The difficulty model\<close>

lemma c_div_nonneg: "0 \<le> a \<Longrightarrow> 0 < b \<Longrightarrow> c_div a b = a div b"
  by (cases "a = 0") (simp_all add: c_div_def)

lemma c_rem_nonneg: "0 \<le> a \<Longrightarrow> 0 < b \<Longrightarrow> c_rem a b = a mod b"
  by (simp add: c_rem_def c_div_nonneg minus_mult_div_eq_mod)

lemma speed_value_bounds:
  assumes "0 \<le> sc" "sc \<le> 99" "0 \<le> j" "j < 40"
  shows "930 \<le> (30 - sc div 5) * (80 + j) + 50 \<and> (30 - sc div 5) * (80 + j) + 50 \<le> (3620::int)"
proof -
  have a: "11 \<le> 30 - sc div 5" "30 - sc div 5 \<le> 30" using assms by auto
  have b: "80 \<le> 80 + j" "80 + j \<le> 119" using assms by auto
  have "11 * 80 \<le> (30 - sc div 5) * (80 + j)"
    using a b by (intro mult_mono) auto
  moreover have "(30 - sc div 5) * (80 + j) \<le> 30 * 119"
    using a b by (intro mult_mono) auto
  ultimately show ?thesis by simp
qed

lemma calc_speed_recip_range:
  assumes "0 \<le> m_score s" "m_score s \<le> 99"
  shows "9 \<le> calc_speed_recip r s \<and> calc_speed_recip r s \<le> 36"
proof -
  have j: "c_rem (int r) 40 = int r mod 40" by (simp add: c_rem_nonneg)
  have jb: "0 \<le> int r mod 40" "int r mod 40 < 40" by simp_all
  have d: "c_div (m_score s) 5 = m_score s div 5" using assms by (simp add: c_div_nonneg)
  define x where "x = (30 - m_score s div 5) * (80 + int r mod 40) + 50"
  have b: "930 \<le> x" "x \<le> 3620"
    using speed_value_bounds [OF assms jb] by (simp_all add: x_def)
  have v: "calc_speed_recip r s = (if x div 100 \<le> 0 then 1 else x div 100)"
    using b unfolding calc_speed_recip_def Let_def j d x_def [symmetric]
    by (simp add: c_div_nonneg)
  show ?thesis
    unfolding v using b by auto
qed

text \<open>
  C4. For every score from 0 to 99 and every value \<open>rand()\<close> can return, the jitter
  \<open>rand() % 40\<close> lies in [0,40) and \<open>calc_speed_recip\<close> returns
  max(1, ((30 - score/5) * (80 + jitter) + 50) / 100) with truncating division, which
  is at least 1. The intermediate product stays inside the 16-bit \<open>int\<close>.
\<close>

theorem calc_speed_recip_spec:
  assumes "0 \<le> m_score s" "m_score s \<le> 99"
  shows "0 \<le> c_rem (int r) 40 \<and> c_rem (int r) 40 < 40 \<and>
         calc_speed_recip r s = spec_speed_recip (m_score s) (c_rem (int r) 40) \<and>
         1 \<le> calc_speed_recip r s \<and>
         (30 - c_div (m_score s) 5) * (80 + c_rem (int r) 40) + 50 \<le> 32767"
proof -
  have j: "c_rem (int r) 40 = int r mod 40" by (simp add: c_rem_nonneg)
  have jb: "0 \<le> int r mod 40" "int r mod 40 < 40" by simp_all
  have d: "c_div (m_score s) 5 = m_score s div 5" using assms by (simp add: c_div_nonneg)
  note b = speed_value_bounds [OF assms jb]
  show ?thesis
    using b jb unfolding calc_speed_recip_def spec_speed_recip_def Let_def j d
    by (auto simp: c_div_nonneg max_def)
qed

theorem calc_speed_recip_spec_witness:
  "calc_speed_recip 39 (power_on 0\<lparr>m_score := 99\<rparr>) = 13 \<and>
   spec_speed_recip 99 39 = 13 \<and> c_rem 39 40 = 39"
  using calc_speed_recip_spec [of "power_on 0\<lparr>m_score := 99\<rparr>" 39]
  by (simp add: spec_speed_recip_def c_div_def c_rem_def)

section \<open>The high-score store\<close>

text \<open>
  C7. \<open>get_high_score\<close> returns the cached byte. \<open>update_high_score\<close> stores the
  candidate in memory and writes it to the EEPROM cell (one write) exactly when it is
  strictly greater than the cached byte, and otherwise leaves the whole machine as it
  is. \<open>erase_hight_score\<close> sets the cached byte to 0 and writes 0 to the cell (one
  write) exactly when the cached byte is not 0, and otherwise leaves the whole machine
  as it is.
\<close>

theorem high_score_store:
  "get_high_score s = m_high_score s \<and>
   update_high_score c s =
     (if c > m_high_score s
      then s\<lparr>m_high_score := c, high_score_eeprom := c, eeprom_writes := eeprom_writes s @ [c]\<rparr>
      else s) \<and>
   erase_hight_score s =
     (if m_high_score s \<noteq> 0
      then s\<lparr>m_high_score := 0, high_score_eeprom := 0, eeprom_writes := eeprom_writes s @ [0]\<rparr>
      else s)"
  by (simp add: get_high_score_def update_high_score_def erase_hight_score_def
      eeprom_write_byte_def Let_def)

theorem high_score_store_witness:
  "eeprom_writes (update_high_score 50 (boot 40)) = [50] \<and>
   m_high_score (update_high_score 50 (boot 40)) = 50 \<and>
   update_high_score 40 (boot 40) = boot 40 \<and>
   eeprom_writes (erase_hight_score (boot 30)) = [0] \<and>
   m_high_score (erase_hight_score (boot 30)) = 0 \<and>
   erase_hight_score (boot 0) = boot 0"
proof -
  have b: "m_high_score (boot c) = c" "eeprom_writes (boot c) = []" for c
    by (simp_all add: boot_def high_score_manager_init_def score_display_init_def
        seven_segments_erase_number_def bar_init_def io_init_def power_on_def)
  show ?thesis
    using high_score_store [of "boot 40" 50] high_score_store [of "boot 40" 40]
      high_score_store [of "boot 30"] high_score_store [of "boot 0"]
    by (simp add: b)
qed


section \<open>What the display, the bar and the store leave alone\<close>

lemma erase_number_frame [simp]:
  "global_timer (erase_number s) = global_timer s"
  "m_value (erase_number s) = m_value s"
  "m_now_digit (erase_number s) = m_now_digit s"
  "m_pos (erase_number s) = m_pos s"
  "m_high_score (erase_number s) = m_high_score s"
  "high_score_eeprom (erase_number s) = high_score_eeprom s"
  "eeprom_writes (erase_number s) = eeprom_writes s"
  "m_update_func (erase_number s) = m_update_func s"
  "m_score (erase_number s) = m_score s"
  "m_position (erase_number s) = m_position s"
  "m_bar_count (erase_number s) = m_bar_count s"
  "m_bar_speed_recip (erase_number s) = m_bar_speed_recip s"
  "m_button_invalid_time (erase_number s) = m_button_invalid_time s"
  "m_update_high_score (erase_number s) = m_update_high_score s"
  "m_blink_count (erase_number s) = m_blink_count s"
  by (simp_all add: erase_number_def seven_segments_erase_number_def)

lemma set_number_frame [simp]:
  "global_timer (set_number v s) = global_timer s"
  "m_now_digit (set_number v s) = m_now_digit s"
  "m_pos (set_number v s) = m_pos s"
  "m_high_score (set_number v s) = m_high_score s"
  "high_score_eeprom (set_number v s) = high_score_eeprom s"
  "eeprom_writes (set_number v s) = eeprom_writes s"
  "m_update_func (set_number v s) = m_update_func s"
  "m_score (set_number v s) = m_score s"
  "m_position (set_number v s) = m_position s"
  "m_bar_count (set_number v s) = m_bar_count s"
  "m_bar_speed_recip (set_number v s) = m_bar_speed_recip s"
  "m_button_invalid_time (set_number v s) = m_button_invalid_time s"
  "m_update_high_score (set_number v s) = m_update_high_score s"
  "m_blink_count (set_number v s) = m_blink_count s"
  by (simp_all add: set_number_def)

lemma set_position_frame [simp]:
  "global_timer (set_position pos s) = global_timer s"
  "m_valid (set_position pos s) = m_valid s"
  "m_value (set_position pos s) = m_value s"
  "m_now_digit (set_position pos s) = m_now_digit s"
  "m_high_score (set_position pos s) = m_high_score s"
  "high_score_eeprom (set_position pos s) = high_score_eeprom s"
  "eeprom_writes (set_position pos s) = eeprom_writes s"
  "m_update_func (set_position pos s) = m_update_func s"
  "m_score (set_position pos s) = m_score s"
  "m_position (set_position pos s) = m_position s"
  "m_bar_count (set_position pos s) = m_bar_count s"
  "m_bar_speed_recip (set_position pos s) = m_bar_speed_recip s"
  "m_button_invalid_time (set_position pos s) = m_button_invalid_time s"
  "m_update_high_score (set_position pos s) = m_update_high_score s"
  "m_blink_count (set_position pos s) = m_blink_count s"
  by (simp_all add: set_position_def Let_def)

lemma bar_erase_frame [simp]:
  "global_timer (bar_erase s) = global_timer s"
  "m_valid (bar_erase s) = m_valid s"
  "m_value (bar_erase s) = m_value s"
  "m_now_digit (bar_erase s) = m_now_digit s"
  "m_high_score (bar_erase s) = m_high_score s"
  "high_score_eeprom (bar_erase s) = high_score_eeprom s"
  "eeprom_writes (bar_erase s) = eeprom_writes s"
  "m_update_func (bar_erase s) = m_update_func s"
  "m_score (bar_erase s) = m_score s"
  "m_position (bar_erase s) = m_position s"
  "m_bar_count (bar_erase s) = m_bar_count s"
  "m_bar_speed_recip (bar_erase s) = m_bar_speed_recip s"
  "m_button_invalid_time (bar_erase s) = m_button_invalid_time s"
  "m_update_high_score (bar_erase s) = m_update_high_score s"
  "m_blink_count (bar_erase s) = m_blink_count s"
  by (simp_all add: bar_erase_def)

lemma update_high_score_frame [simp]:
  "portb (update_high_score c s) = portb s"
  "portc (update_high_score c s) = portc s"
  "portd (update_high_score c s) = portd s"
  "global_timer (update_high_score c s) = global_timer s"
  "m_valid (update_high_score c s) = m_valid s"
  "m_value (update_high_score c s) = m_value s"
  "m_now_digit (update_high_score c s) = m_now_digit s"
  "m_pos (update_high_score c s) = m_pos s"
  "m_update_func (update_high_score c s) = m_update_func s"
  "m_score (update_high_score c s) = m_score s"
  "m_position (update_high_score c s) = m_position s"
  "m_bar_count (update_high_score c s) = m_bar_count s"
  "m_bar_speed_recip (update_high_score c s) = m_bar_speed_recip s"
  "m_button_invalid_time (update_high_score c s) = m_button_invalid_time s"
  "m_update_high_score (update_high_score c s) = m_update_high_score s"
  "m_blink_count (update_high_score c s) = m_blink_count s"
  by (simp_all add: update_high_score_def eeprom_write_byte_def Let_def)

lemma erase_hight_score_frame [simp]:
  "portb (erase_hight_score s) = portb s"
  "portc (erase_hight_score s) = portc s"
  "portd (erase_hight_score s) = portd s"
  "global_timer (erase_hight_score s) = global_timer s"
  "m_valid (erase_hight_score s) = m_valid s"
  "m_value (erase_hight_score s) = m_value s"
  "m_now_digit (erase_hight_score s) = m_now_digit s"
  "m_pos (erase_hight_score s) = m_pos s"
  "m_update_func (erase_hight_score s) = m_update_func s"
  "m_score (erase_hight_score s) = m_score s"
  "m_position (erase_hight_score s) = m_position s"
  "m_bar_count (erase_hight_score s) = m_bar_count s"
  "m_bar_speed_recip (erase_hight_score s) = m_bar_speed_recip s"
  "m_button_invalid_time (erase_hight_score s) = m_button_invalid_time s"
  "m_update_high_score (erase_hight_score s) = m_update_high_score s"
  "m_blink_count (erase_hight_score s) = m_blink_count s"
  by (simp_all add: erase_hight_score_def eeprom_write_byte_def Let_def)

lemma change_digit_frame [simp]:
  "global_timer (change_digit s) = global_timer s"
  "m_valid (change_digit s) = m_valid s"
  "m_value (change_digit s) = m_value s"
  "m_pos (change_digit s) = m_pos s"
  "m_high_score (change_digit s) = m_high_score s"
  "high_score_eeprom (change_digit s) = high_score_eeprom s"
  "eeprom_writes (change_digit s) = eeprom_writes s"
  "m_update_func (change_digit s) = m_update_func s"
  "m_score (change_digit s) = m_score s"
  "m_position (change_digit s) = m_position s"
  "m_bar_count (change_digit s) = m_bar_count s"
  "m_bar_speed_recip (change_digit s) = m_bar_speed_recip s"
  "m_button_invalid_time (change_digit s) = m_button_invalid_time s"
  "m_update_high_score (change_digit s) = m_update_high_score s"
  "m_blink_count (change_digit s) = m_blink_count s"
  by (simp_all add: change_digit_def)

lemma frame_per_sec_consts [simp]:
  "c_div FRAME_PER_SEC 10 = 50" "c_div FRAME_PER_SEC 2 = 250" "c_div FRAME_PER_SEC 20 = 25"
  by (simp_all add: FRAME_PER_SEC_def c_div_def)

text \<open>The button part of \<open>playing\<close>, member by member.\<close>

lemma playing_button_fields:
  "m_score (playing_button i t) =
     (if 16 \<le> m_position t \<and> m_button_invalid_time t = 0 \<and> \<not> game_switch i
      then min (m_score t + 1) MAX_SCORE else m_score t)"
  "m_position (playing_button i t) =
     (if 16 \<le> m_position t \<and> m_button_invalid_time t = 0 \<and> \<not> game_switch i
      then 0 else m_position t)"
  "m_bar_count (playing_button i t) =
     (if 16 \<le> m_position t \<and> m_button_invalid_time t = 0 \<and> \<not> game_switch i
      then 0 else m_bar_count t)"
  "m_bar_speed_recip (playing_button i t) =
     (if 16 \<le> m_position t \<and> m_button_invalid_time t = 0 \<and> \<not> game_switch i
      then calc_speed_recip (rand_value i) (t\<lparr>m_score := min (m_score t + 1) MAX_SCORE\<rparr>)
      else m_bar_speed_recip t)"
  "m_button_invalid_time (playing_button i t) =
     (if \<not> game_switch i then 50
      else if m_button_invalid_time t > 0 then m_button_invalid_time t - 1
      else m_button_invalid_time t)"
  "m_update_func (playing_button i t) = m_update_func t"
  "m_update_high_score (playing_button i t) = m_update_high_score t"
  "m_blink_count (playing_button i t) = m_blink_count t"
  "m_high_score (playing_button i t) = m_high_score t"
  "high_score_eeprom (playing_button i t) = high_score_eeprom t"
  "eeprom_writes (playing_button i t) = eeprom_writes t"
  "m_pos (playing_button i t) = m_pos t"
  "m_valid (playing_button i t) = m_valid t"
  "m_value (playing_button i t) = m_value t"
  "m_now_digit (playing_button i t) = m_now_digit t"
  "global_timer (playing_button i t) = global_timer t"
  "portb (playing_button i t) = portb t"
  "portc (playing_button i t) = portc t"
  "portd (playing_button i t) = portd t"
  by (simp_all add: playing_button_def Let_def calc_speed_recip_def min_def)


text \<open>The three ways through \<open>playing\<close>.\<close>

lemma playing_dwell:
  assumes "\<not> m_bar_speed_recip s \<le> m_bar_count s + 1"
  shows "playing i s =
    playing_button i
      ((set_position (playing_bar_position (m_position s)) (set_number (word_of_int (m_score s)) s))
         \<lparr>m_bar_count := m_bar_count s + 1\<rparr>)"
  using assms by (simp add: playing_def Let_def)

lemma playing_advance:
  assumes "m_bar_speed_recip s \<le> m_bar_count s + 1" "m_position s + 1 < 19"
  shows "playing i s =
    playing_button i
      ((set_position (playing_bar_position (m_position s)) (set_number (word_of_int (m_score s)) s))
         \<lparr>m_bar_count := 0, m_position := m_position s + 1\<rparr>)"
  using assms by (simp add: playing_def Let_def)

lemma playing_finish:
  assumes "m_bar_speed_recip s \<le> m_bar_count s + 1" "19 \<le> m_position s + 1"
  shows "playing i s =
    playing_round_over
      ((set_position (playing_bar_position (m_position s)) (set_number (word_of_int (m_score s)) s))
         \<lparr>m_bar_count := 0, m_position := m_position s + 1\<rparr>)"
  using assms by (simp add: playing_def Let_def)

lemma calc_speed_recip_cong:
  "m_score t = m_score s \<Longrightarrow> calc_speed_recip r t = calc_speed_recip r s"
  by (simp add: calc_speed_recip_def)

lemma playing_continues:
  assumes p: "p = (if m_bar_speed_recip s \<le> m_bar_count s + 1 then m_position s + 1 else m_position s)"
    and c: "c = (if m_bar_speed_recip s \<le> m_bar_count s + 1 then 0 else m_bar_count s + 1)"
    and lt: "p < 19"
    and hit: "hit = (16 \<le> p \<and> m_button_invalid_time s = 0 \<and> \<not> game_switch i)"
  shows "m_score (playing i s) = (if hit then min (m_score s + 1) MAX_SCORE else m_score s)"
    and "m_position (playing i s) = (if hit then 0 else p)"
    and "m_bar_count (playing i s) = (if hit then 0 else c)"
    and "m_bar_speed_recip (playing i s) =
          (if hit then calc_speed_recip (rand_value i) (s\<lparr>m_score := min (m_score s + 1) MAX_SCORE\<rparr>)
           else m_bar_speed_recip s)"
    and "m_button_invalid_time (playing i s) =
          (if \<not> game_switch i then 50
           else if m_button_invalid_time s > 0 then m_button_invalid_time s - 1
           else m_button_invalid_time s)"
    and "m_update_func (playing i s) = m_update_func s"
proof -
  show "m_score (playing i s) = (if hit then min (m_score s + 1) MAX_SCORE else m_score s)"
  proof (cases "m_bar_speed_recip s \<le> m_bar_count s + 1")
    case True
    then show ?thesis using p lt hit
      by (simp add: playing_advance playing_button_fields)
  next
    case False
    then show ?thesis using p lt hit
      by (simp add: playing_dwell playing_button_fields)
  qed
  show "m_position (playing i s) = (if hit then 0 else p)"
  proof (cases "m_bar_speed_recip s \<le> m_bar_count s + 1")
    case True
    then show ?thesis using p lt hit
      by (simp add: playing_advance playing_button_fields)
  next
    case False
    then show ?thesis using p lt hit
      by (simp add: playing_dwell playing_button_fields)
  qed
  show "m_bar_count (playing i s) = (if hit then 0 else c)"
  proof (cases "m_bar_speed_recip s \<le> m_bar_count s + 1")
    case True
    then show ?thesis using p c lt hit
      by (simp add: playing_advance playing_button_fields)
  next
    case False
    then show ?thesis using p c lt hit
      by (simp add: playing_dwell playing_button_fields)
  qed
  show "m_bar_speed_recip (playing i s) =
          (if hit then calc_speed_recip (rand_value i) (s\<lparr>m_score := min (m_score s + 1) MAX_SCORE\<rparr>)
           else m_bar_speed_recip s)"
  proof (cases "m_bar_speed_recip s \<le> m_bar_count s + 1")
    case True
    then show ?thesis using p lt hit
      by (simp add: playing_advance playing_button_fields calc_speed_recip_cong)
  next
    case False
    then show ?thesis using p lt hit
      by (simp add: playing_dwell playing_button_fields calc_speed_recip_cong)
  qed
  show "m_button_invalid_time (playing i s) =
          (if \<not> game_switch i then 50
           else if m_button_invalid_time s > 0 then m_button_invalid_time s - 1
           else m_button_invalid_time s)"
  proof (cases "m_bar_speed_recip s \<le> m_bar_count s + 1")
    case True
    then show ?thesis using p lt
      by (simp add: playing_advance playing_button_fields)
  next
    case False
    then show ?thesis
      by (simp add: playing_dwell playing_button_fields)
  qed
  show "m_update_func (playing i s) = m_update_func s"
  proof (cases "m_bar_speed_recip s \<le> m_bar_count s + 1")
    case True
    then show ?thesis using p lt
      by (simp add: playing_advance playing_button_fields)
  next
    case False
    then show ?thesis
      by (simp add: playing_dwell playing_button_fields)
  qed
qed


section \<open>An invariant of the game\<close>

lemma init_game_fields:
  "m_score (init_game i s) = 0"
  "m_position (init_game i s) = 0"
  "m_bar_count (init_game i s) = 0"
  "m_bar_speed_recip (init_game i s) = calc_speed_recip (rand_value i) (s\<lparr>m_score := 0\<rparr>)"
  "m_button_invalid_time (init_game i s) = 0"
  "m_update_func (init_game i s) = m_update_func s"
  "m_update_high_score (init_game i s) = m_update_high_score s"
  "m_blink_count (init_game i s) = m_blink_count s"
  "m_high_score (init_game i s) = m_high_score s"
  "high_score_eeprom (init_game i s) = high_score_eeprom s"
  "eeprom_writes (init_game i s) = eeprom_writes s"
  "m_pos (init_game i s) = m_pos s"
  "m_valid (init_game i s) = m_valid s"
  "m_value (init_game i s) = m_value s"
  "m_now_digit (init_game i s) = m_now_digit s"
  "global_timer (init_game i s) = global_timer s"
  "portb (init_game i s) = portb s"
  "portc (init_game i s) = portc s"
  "portd (init_game i s) = portd s"
  by (simp_all add: init_game_def Let_def calc_speed_recip_def)

lemma calc_speed_recip_start:
  "9 \<le> calc_speed_recip r (s\<lparr>m_score := 0\<rparr>) \<and> calc_speed_recip r (s\<lparr>m_score := 0\<rparr>) \<le> 36"
  by (rule calc_speed_recip_range) simp_all

lemma game_inv_init_game:
  assumes "game_inv s"
  shows "game_inv ((init_game i s)\<lparr>m_update_func := Playing\<rparr>)"
  using assms calc_speed_recip_start [of "rand_value i" s]
  by (simp add: game_inv_def init_game_fields MAX_SCORE_def)

lemma game_inv_cong:
  assumes "game_inv s"
    and "m_score t = m_score s" "m_position t = m_position s" "m_bar_count t = m_bar_count s"
    and "m_bar_speed_recip t = m_bar_speed_recip s"
    and "m_button_invalid_time t = m_button_invalid_time s"
    and "m_blink_count t = m_blink_count s"
    and "m_update_func t = m_update_func s"
  shows "game_inv t"
  using assms by (simp add: game_inv_def)

lemma game_inv_ready_to_start:
  assumes "game_inv s" "m_update_func s = Ready_to_start"
  shows "game_inv (ready_to_start i s)"
proof (cases "game_switch i")
  case False
  then show ?thesis
    unfolding ready_to_start_def Let_def
    by (simp only: if_True if_False not_False_eq_True)
       (intro game_inv_init_game game_inv_cong [OF assms(1)]; simp)
next
  case True
  then show ?thesis using assms
    by (simp add: ready_to_start_def Let_def game_inv_def)
qed


lemma game_inv_show_high_score:
  assumes "game_inv s" "m_update_func s = Show_high_score"
  shows "game_inv (show_high_score i s)"
proof (cases "game_switch i")
  case False
  then show ?thesis
    unfolding show_high_score_def Let_def
    by (simp only: if_True if_False not_False_eq_True)
       (intro game_inv_init_game game_inv_cong [OF assms(1)]; simp)
next
  case True
  then show ?thesis using assms
    by (simp add: show_high_score_def Let_def game_inv_def)
qed

lemma game_inv_show_score:
  assumes "game_inv s" "m_update_func s = Show_score"
  shows "game_inv (show_score i s)"
proof (cases "game_switch i")
  case False
  then show ?thesis
    unfolding show_score_def Let_def
    by (simp only: if_True if_False not_False_eq_True)
       (intro game_inv_init_game game_inv_cong [OF assms(1)]; simp)
next
  case True
  then show ?thesis using assms
    by (simp add: show_score_def Let_def game_inv_def)
qed

lemma show_score_blink_fields:
  "m_score (show_score_blink i s) = m_score s"
  "m_position (show_score_blink i s) = m_position s"
  "m_bar_count (show_score_blink i s) = m_bar_count s"
  "m_bar_speed_recip (show_score_blink i s) = m_bar_speed_recip s"
  "m_button_invalid_time (show_score_blink i s) = m_button_invalid_time s"
  "m_update_high_score (show_score_blink i s) = m_update_high_score s"
  "m_high_score (show_score_blink i s) = m_high_score s"
  "high_score_eeprom (show_score_blink i s) = high_score_eeprom s"
  "eeprom_writes (show_score_blink i s) = eeprom_writes s"
  "m_now_digit (show_score_blink i s) = m_now_digit s"
  "global_timer (show_score_blink i s) = global_timer s"
  "m_blink_count (show_score_blink i s) = m_blink_count s + 1"
  "m_update_func (show_score_blink i s) =
     (if FRAME_PER_SEC * 3 \<le> m_blink_count s + 1 then Show_score else m_update_func s)"
  by (simp_all add: show_score_blink_def Let_def)

lemma game_inv_show_score_blink:
  assumes "game_inv s" "m_update_func s = Show_score_blink"
  shows "game_inv (show_score_blink i s)"
  using assms by (simp add: game_inv_def show_score_blink_fields FRAME_PER_SEC_def)

lemma playing_round_over_fields:
  "m_score (playing_round_over s) = m_score s"
  "m_position (playing_round_over s) = m_position s"
  "m_bar_count (playing_round_over s) = m_bar_count s"
  "m_bar_speed_recip (playing_round_over s) = m_bar_speed_recip s"
  "m_button_invalid_time (playing_round_over s) = m_button_invalid_time s"
  "m_blink_count (playing_round_over s) = 0"
  "m_update_func (playing_round_over s) = Show_score_blink"
  "m_pos (playing_round_over s) = m_pos s"
  "m_valid (playing_round_over s) = m_valid s"
  "m_value (playing_round_over s) = m_value s"
  "m_now_digit (playing_round_over s) = m_now_digit s"
  "global_timer (playing_round_over s) = global_timer s"
  "portb (playing_round_over s) = portb s"
  "portc (playing_round_over s) = portc s"
  "portd (playing_round_over s) = portd s"
  by (simp_all add: playing_round_over_def Let_def)

lemma playing_continues_frame:
  assumes "\<not> (m_bar_speed_recip s \<le> m_bar_count s + 1 \<and> 19 \<le> m_position s + 1)"
  shows "m_blink_count (playing i s) = m_blink_count s"
    and "m_update_high_score (playing i s) = m_update_high_score s"
    and "m_high_score (playing i s) = m_high_score s"
    and "high_score_eeprom (playing i s) = high_score_eeprom s"
    and "eeprom_writes (playing i s) = eeprom_writes s"
    and "m_now_digit (playing i s) = m_now_digit s"
    and "global_timer (playing i s) = global_timer s"
proof -
  consider (dwell) "\<not> m_bar_speed_recip s \<le> m_bar_count s + 1"
    | (advance) "m_bar_speed_recip s \<le> m_bar_count s + 1" "m_position s + 1 < 19"
    using assms by linarith
  then have "m_blink_count (playing i s) = m_blink_count s \<and>
      m_update_high_score (playing i s) = m_update_high_score s \<and>
      m_high_score (playing i s) = m_high_score s \<and>
      high_score_eeprom (playing i s) = high_score_eeprom s \<and>
      eeprom_writes (playing i s) = eeprom_writes s \<and>
      m_now_digit (playing i s) = m_now_digit s \<and>
      global_timer (playing i s) = global_timer s"
  proof cases
    case dwell
    then show ?thesis by (simp add: playing_dwell playing_button_fields)
  next
    case advance
    then show ?thesis by (simp add: playing_advance playing_button_fields)
  qed
  then show "m_blink_count (playing i s) = m_blink_count s"
    and "m_update_high_score (playing i s) = m_update_high_score s"
    and "m_high_score (playing i s) = m_high_score s"
    and "high_score_eeprom (playing i s) = high_score_eeprom s"
    and "eeprom_writes (playing i s) = eeprom_writes s"
    and "m_now_digit (playing i s) = m_now_digit s"
    and "global_timer (playing i s) = global_timer s"
    by simp_all
qed

lemma game_inv_playing:
  assumes "game_inv s" "m_update_func s = Playing"
  shows "game_inv (playing i s)"
proof (cases "m_bar_speed_recip s \<le> m_bar_count s + 1 \<and> 19 \<le> m_position s + 1")
  case True
  then show ?thesis using assms
    by (simp add: playing_finish playing_round_over_fields game_inv_def)
next
  case False
  define p where "p = (if m_bar_speed_recip s \<le> m_bar_count s + 1 then m_position s + 1 else m_position s)"
  define c where "c = (if m_bar_speed_recip s \<le> m_bar_count s + 1 then 0 else m_bar_count s + 1)"
  define hit where "hit = (16 \<le> p \<and> m_button_invalid_time s = 0 \<and> \<not> game_switch i)"
  have lt: "p < 19" using False assms by (auto simp: p_def game_inv_def)
  note f = playing_continues [OF p_def c_def lt hit_def]
  have sc: "0 \<le> min (m_score s + 1) MAX_SCORE" "min (m_score s + 1) MAX_SCORE \<le> 99"
    using assms by (simp_all add: game_inv_def MAX_SCORE_def)
  have r: "9 \<le> calc_speed_recip (rand_value i) (s\<lparr>m_score := min (m_score s + 1) MAX_SCORE\<rparr>)"
      "calc_speed_recip (rand_value i) (s\<lparr>m_score := min (m_score s + 1) MAX_SCORE\<rparr>) \<le> 36"
    using calc_speed_recip_range [of "s\<lparr>m_score := min (m_score s + 1) MAX_SCORE\<rparr>" "rand_value i"] sc
    by simp_all
  note g = playing_continues_frame [OF False]
  show ?thesis
    unfolding game_inv_def f g
    using assms lt r sc by (auto simp: game_inv_def p_def c_def MAX_SCORE_def)
qed

lemma game_inv_update:
  assumes "game_inv s"
  shows "game_inv (update i s)"
  using assms
  by (cases "m_update_func s")
     (simp_all add: update_def game_inv_ready_to_start game_inv_show_high_score
        game_inv_playing game_inv_show_score_blink game_inv_show_score)

lemma game_inv_isr:
  assumes "game_inv s"
  shows "game_inv (isr i s)"
  unfolding isr_def Let_def
  by (intro game_inv_update game_inv_cong [OF assms]; simp)

lemma game_inv_boot: "game_inv (boot cell)"
  by (simp add: game_inv_def boot_def high_score_manager_init_def score_display_init_def
      seven_segments_erase_number_def bar_init_def io_init_def power_on_def MAX_SCORE_def)

lemma game_inv_run: "game_inv s \<Longrightarrow> game_inv (run is s)"
  by (induction "is" arbitrary: s) (simp_all add: game_inv_isr)

lemma reachable_inv: "game_inv (run is (boot cell))"
  by (rule game_inv_run [OF game_inv_boot])


section \<open>Scoring presses\<close>

lemma update_playing: "m_update_func s = Playing \<Longrightarrow> update i s = playing i s"
  by (simp add: update_def)

text \<open>
  C1 (amended). In the Playing state, on a tick where Position does not reach 19, let
  \<open>p\<close> and \<open>c\<close> be Position and the dwell counter after the dwell step of this tick.
  A press scores exactly when the play input is asserted, Lockout is 0 and \<open>p \<ge> 16\<close>
  (positions 16, 17 and 18 of the return swing, shown at bar indices 2, 1 and 0). A scoring
  press sets Score to min(Score + 1, 99), so Score grows by exactly 1 precisely on a
  scoring press below 99 and never exceeds 99, in any state the program reaches; it
  resets Position and the dwell counter to 0 and recomputes Speed Reciprocal from the
  new Score. Without a scoring press Score is unchanged and Position and the dwell
  counter are \<open>p\<close> and \<open>c\<close>.
\<close>

theorem playing_scoring_press:
  assumes st: "m_update_func s = Playing"
    and sc: "0 \<le> m_score s" "m_score s \<le> MAX_SCORE"
    and p: "p = (if m_bar_speed_recip s \<le> m_bar_count s + 1 then m_position s + 1 else m_position s)"
    and c: "c = (if m_bar_speed_recip s \<le> m_bar_count s + 1 then 0 else m_bar_count s + 1)"
    and lt: "p < 19"
    and hit: "hit = (16 \<le> p \<and> m_button_invalid_time s = 0 \<and> \<not> game_switch i)"
  shows "(m_score (update i s) = m_score s + 1) = (hit \<and> m_score s < MAX_SCORE) \<and>
         m_score (update i s) = (if hit then min (m_score s + 1) MAX_SCORE else m_score s) \<and>
         m_score (update i s) \<le> MAX_SCORE \<and>
         m_position (update i s) = (if hit then 0 else p) \<and>
         m_bar_count (update i s) = (if hit then 0 else c) \<and>
         m_bar_speed_recip (update i s) =
           (if hit then calc_speed_recip (rand_value i) (update i s) else m_bar_speed_recip s) \<and>
         (\<forall>is cell. m_score (run is (boot cell)) \<le> MAX_SCORE)"
proof -
  note f = playing_continues [OF p c lt hit]
  have u: "update i s = playing i s" by (rule update_playing [OF st])
  have 1: "m_score (update i s) = (if hit then min (m_score s + 1) MAX_SCORE else m_score s)"
    unfolding u by (rule f)
  have 2: "(m_score (update i s) = m_score s + 1) = (hit \<and> m_score s < MAX_SCORE)"
    unfolding 1 using sc by (auto simp: min_def)
  have 3: "m_score (update i s) \<le> MAX_SCORE"
    unfolding 1 using sc by simp
  have 4: "m_position (update i s) = (if hit then 0 else p)"
    unfolding u by (rule f)
  have 5: "m_bar_count (update i s) = (if hit then 0 else c)"
    unfolding u by (rule f)
  have "calc_speed_recip (rand_value i) (playing i s) =
        calc_speed_recip (rand_value i) (s\<lparr>m_score := m_score (playing i s)\<rparr>)"
    by (rule calc_speed_recip_cong) simp
  then have 6: "m_bar_speed_recip (update i s) =
           (if hit then calc_speed_recip (rand_value i) (update i s) else m_bar_speed_recip s)"
    unfolding u using f(1,4) by simp
  have 7: "\<forall>is cell. m_score (run is (boot cell)) \<le> MAX_SCORE"
    using reachable_inv by (simp add: game_inv_def)
  show ?thesis using 1 2 3 4 5 6 7 by blast
qed


lemma boot_fields:
  "m_update_func (boot c) = Ready_to_start" "m_score (boot c) = 0" "m_position (boot c) = 0"
  "m_bar_count (boot c) = 0" "m_bar_speed_recip (boot c) = 0" "m_button_invalid_time (boot c) = 0"
  "m_update_high_score (boot c) = False" "m_blink_count (boot c) = 0"
  "m_high_score (boot c) = c" "high_score_eeprom (boot c) = c" "eeprom_writes (boot c) = []"
  "m_pos (boot c) = - 1" "m_valid (boot c) = False" "m_value (boot c) = 0"
  "m_now_digit (boot c) = 0" "global_timer (boot c) = 0"
  by (simp_all add: boot_def high_score_manager_init_def score_display_init_def
      seven_segments_erase_number_def bar_init_def io_init_def power_on_def BAR_INVALID_def)

theorem playing_scoring_press_witness:
  "m_score (update \<lparr>game_switch = False, high_score_switch = True, erase_score_switch = True,
                    rand_value = 7\<rparr>
      ((boot 0)\<lparr>m_update_func := Playing, m_position := 16, m_bar_speed_recip := 24\<rparr>)) = 1 \<and>
   m_position (update \<lparr>game_switch = False, high_score_switch = True, erase_score_switch = True,
                    rand_value = 7\<rparr>
      ((boot 0)\<lparr>m_update_func := Playing, m_position := 16, m_bar_speed_recip := 24\<rparr>)) = 0"
  using playing_scoring_press [of "(boot 0)\<lparr>m_update_func := Playing, m_position := 16, m_bar_speed_recip := 24\<rparr>"
      16 1 True "\<lparr>game_switch = False, high_score_switch = True, erase_score_switch = True, rand_value = 7\<rparr>"]
  by (simp add: boot_fields MAX_SCORE_def)

text \<open>
  The window of the code is not the one the specification words. With the play input
  asserted and Lockout 0, a press at Position 6 (bar index 6, inside the worded window)
  leaves Score at 0, and a press at Position 16 (bar index 2, outside it) scores.
\<close>

theorem scoring_window_counterexample:
  "spec_scoring_window 6 \<and>
   m_score (update \<lparr>game_switch = False, high_score_switch = True, erase_score_switch = True,
                    rand_value = 7\<rparr>
      ((boot 0)\<lparr>m_update_func := Playing, m_position := 6, m_bar_speed_recip := 24\<rparr>)) = 0 \<and>
   \<not> spec_scoring_window 16 \<and>
   m_score (update \<lparr>game_switch = False, high_score_switch = True, erase_score_switch = True,
                    rand_value = 7\<rparr>
      ((boot 0)\<lparr>m_update_func := Playing, m_position := 16, m_bar_speed_recip := 24\<rparr>)) = 1"
  by (simp add: spec_scoring_window_def playing_bar_position_def update_def playing_dwell
      playing_button_fields boot_fields MAX_SCORE_def)

section \<open>The end of a round\<close>

lemma word_of_score:
  assumes "0 \<le> x" "x \<le> MAX_SCORE"
  shows "uint (word_of_int x :: u8) = x"
  using assms by (simp add: MAX_SCORE_def uint_word_of_int)

text \<open>
  C2. In the Playing state, on the tick where the dwell counter reaches Speed Reciprocal
  and Position advances to 19: if Score is strictly greater than High Score the flag
  \<open>m_update_high_score\<close> is set and Score is stored in the high-score store and written
  to the EEPROM cell (one write); otherwise the flag is set exactly when Score is 99 and
  the store is untouched. The state becomes ScoreBlink with blink counter 0, and Score
  and Lockout are unchanged whatever the inputs are.
\<close>

theorem playing_round_complete:
  assumes st: "m_update_func s = Playing"
    and dwell: "m_bar_speed_recip s \<le> m_bar_count s + 1"
    and pos: "19 \<le> m_position s + 1"
    and sc: "0 \<le> m_score s" "m_score s \<le> MAX_SCORE"
  shows "(if m_score s > uint (get_high_score s)
          then m_update_high_score (update i s) \<and>
               get_high_score (update i s) = word_of_int (m_score s) \<and>
               high_score_eeprom (update i s) = word_of_int (m_score s) \<and>
               eeprom_writes (update i s) = eeprom_writes s @ [word_of_int (m_score s)]
          else m_update_high_score (update i s) = (m_score s = MAX_SCORE) \<and>
               get_high_score (update i s) = get_high_score s \<and>
               high_score_eeprom (update i s) = high_score_eeprom s \<and>
               eeprom_writes (update i s) = eeprom_writes s) \<and>
         uint (word_of_int (m_score s) :: u8) = m_score s \<and>
         m_update_func (update i s) = Show_score_blink \<and>
         m_blink_count (update i s) = 0 \<and>
         m_score (update i s) = m_score s \<and>
         m_button_invalid_time (update i s) = m_button_invalid_time s"
proof -
  have u: "update i s = playing_round_over
      ((set_position (playing_bar_position (m_position s)) (set_number (word_of_int (m_score s)) s))
         \<lparr>m_bar_count := 0, m_position := m_position s + 1\<rparr>)"
    by (simp add: update_playing [OF st] playing_finish [OF dwell pos])
  have w: "uint (word_of_int (m_score s) :: u8) = m_score s"
    by (rule word_of_score [OF sc])
  have lt: "(m_high_score s < word_of_int (m_score s)) = (uint (m_high_score s) < m_score s)"
    by (simp add: word_less_def w)
  have hs: "(if m_score s > uint (get_high_score s)
          then m_update_high_score (update i s) \<and>
               get_high_score (update i s) = word_of_int (m_score s) \<and>
               high_score_eeprom (update i s) = word_of_int (m_score s) \<and>
               eeprom_writes (update i s) = eeprom_writes s @ [word_of_int (m_score s)]
          else m_update_high_score (update i s) = (m_score s = MAX_SCORE) \<and>
               get_high_score (update i s) = get_high_score s \<and>
               high_score_eeprom (update i s) = high_score_eeprom s \<and>
               eeprom_writes (update i s) = eeprom_writes s)"
    unfolding u
    by (simp add: playing_round_over_def Let_def get_high_score_def update_high_score_def
        eeprom_write_byte_def lt)
  show ?thesis
    using hs w by (simp add: u playing_round_over_fields)
qed

theorem playing_round_complete_witness:
  "get_high_score (update \<lparr>game_switch = False, high_score_switch = True,
       erase_score_switch = True, rand_value = 7\<rparr>
     ((boot 40)\<lparr>m_update_func := Playing, m_position := 18, m_score := 50,
                m_bar_count := 19, m_bar_speed_recip := 20\<rparr>)) = 50 \<and>
   high_score_eeprom (update \<lparr>game_switch = False, high_score_switch = True,
       erase_score_switch = True, rand_value = 7\<rparr>
     ((boot 40)\<lparr>m_update_func := Playing, m_position := 18, m_score := 50,
                m_bar_count := 19, m_bar_speed_recip := 20\<rparr>)) = 50 \<and>
   eeprom_writes (update \<lparr>game_switch = False, high_score_switch = True,
       erase_score_switch = True, rand_value = 7\<rparr>
     ((boot 40)\<lparr>m_update_func := Playing, m_position := 18, m_score := 50,
                m_bar_count := 19, m_bar_speed_recip := 20\<rparr>)) = [50] \<and>
   m_update_high_score (update \<lparr>game_switch = False, high_score_switch = True,
       erase_score_switch = True, rand_value = 7\<rparr>
     ((boot 40)\<lparr>m_update_func := Playing, m_position := 18, m_score := 50,
                m_bar_count := 19, m_bar_speed_recip := 20\<rparr>)) \<and>
   m_update_func (update \<lparr>game_switch = False, high_score_switch = True,
       erase_score_switch = True, rand_value = 7\<rparr>
     ((boot 40)\<lparr>m_update_func := Playing, m_position := 18, m_score := 50,
                m_bar_count := 19, m_bar_speed_recip := 20\<rparr>)) = Show_score_blink \<and>
   m_score (update \<lparr>game_switch = False, high_score_switch = True,
       erase_score_switch = True, rand_value = 7\<rparr>
     ((boot 40)\<lparr>m_update_func := Playing, m_position := 18, m_score := 50,
                m_bar_count := 19, m_bar_speed_recip := 20\<rparr>)) = 50"
  using playing_round_complete [of "(boot 40)\<lparr>m_update_func := Playing, m_position := 18,
      m_score := 50, m_bar_count := 19, m_bar_speed_recip := 20\<rparr>"
      "\<lparr>game_switch = False, high_score_switch = True, erase_score_switch = True, rand_value = 7\<rparr>"]
  by (simp add: boot_fields MAX_SCORE_def get_high_score_def)


section \<open>The lockout\<close>

lemma held_inv_cong:
  assumes "held_inv s"
    and "m_score t = m_score s" "m_position t = m_position s"
    and "m_button_invalid_time t = m_button_invalid_time s" "m_update_func t = m_update_func s"
  shows "held_inv t"
  using assms by (simp add: held_inv_def)

lemma held_playing:
  assumes h: "held_inv s" and st: "m_update_func s = Playing" and pr: "\<not> game_switch i"
  shows "held_inv (playing i s) \<and> m_score (playing i s) \<le> m_score s"
proof (cases "m_bar_speed_recip s \<le> m_bar_count s + 1 \<and> 19 \<le> m_position s + 1")
  case True
  then show ?thesis using h
    by (simp add: playing_finish playing_round_over_fields held_inv_def)
next
  case False
  define p where "p = (if m_bar_speed_recip s \<le> m_bar_count s + 1 then m_position s + 1 else m_position s)"
  define c where "c = (if m_bar_speed_recip s \<le> m_bar_count s + 1 then 0 else m_bar_count s + 1)"
  define hit where "hit = (16 \<le> p \<and> m_button_invalid_time s = 0 \<and> \<not> game_switch i)"
  have lt: "p < 19" using False h st by (auto simp: p_def held_inv_def)
  have nohit: "\<not> hit" using h st by (auto simp: hit_def p_def held_inv_def)
  note f = playing_continues [OF p_def c_def lt hit_def]
  show ?thesis
    unfolding held_inv_def f using h pr nohit lt by (simp add: held_inv_def)
qed

lemma held_update:
  assumes h: "held_inv s" and pr: "\<not> game_switch i"
  shows "held_inv (update i s) \<and> m_score (update i s) \<le> m_score s"
proof (cases "m_update_func s")
  case Ready_to_start
  then show ?thesis using h pr
    by (simp add: update_def ready_to_start_def Let_def held_inv_def init_game_fields)
next
  case Show_high_score
  then show ?thesis using h pr
    by (simp add: update_def show_high_score_def Let_def held_inv_def init_game_fields)
next
  case Playing
  then show ?thesis using held_playing [OF h Playing pr] by (simp add: update_def)
next
  case Show_score_blink
  then show ?thesis using h
    by (simp add: update_def held_inv_def show_score_blink_fields)
next
  case Show_score
  then show ?thesis using h pr
    by (simp add: update_def show_score_def Let_def held_inv_def init_game_fields)
qed

lemma held_isr:
  assumes h: "held_inv s" and pr: "\<not> game_switch i"
  shows "held_inv (isr i s) \<and> m_score (isr i s) \<le> m_score s"
proof -
  define t where "t = (if (global_timer s + 1) mod 4 = 0
    then change_digit (s\<lparr>global_timer := global_timer s + 1\<rparr>)
    else s\<lparr>global_timer := global_timer s + 1\<rparr>)"
  have i: "isr i s = update i t" by (simp add: isr_def Let_def t_def)
  have sc: "m_score t = m_score s" by (simp add: t_def)
  have "held_inv t" by (rule held_inv_cong [OF h]) (simp_all add: t_def)
  from held_update [OF this pr] show ?thesis by (simp add: i sc)
qed

lemma held_run:
  assumes "held_inv s" "\<forall>j \<in> set is. \<not> game_switch j"
  shows "m_score (run is s) \<le> m_score s"
  using assms
proof (induction "is" arbitrary: s)
  case Nil
  then show ?case by simp
next
  case (Cons j js)
  have a: "held_inv (isr j s)" "m_score (isr j s) \<le> m_score s"
    using held_isr [of s j] Cons.prems by simp_all
  have "m_score (run js (isr j s)) \<le> m_score (isr j s)"
    using Cons.IH [OF a(1)] Cons.prems(2) by simp
  then show ?case using a(2) by simp
qed

text \<open>
  C3 (amended). On every tick of the Playing state that does not end the round
  (Position does not reach 19), Lockout becomes 50 (tick rate / 10) if the play input
  is asserted, and otherwise is decremented by 1 unless it is 0 already; so a Lockout
  between 0 and 50 decreases only on a tick where the input is not asserted. If a press
  scores on one tick and the play input is asserted on the next, Score does not change
  on that next tick; and however many ticks follow the scoring press with the play
  input asserted throughout, Score never rises above its value after the scoring press.
\<close>

theorem lockout_debounce:
  assumes st: "m_update_func s = Playing"
    and sc: "0 \<le> m_score s"
    and p: "p = (if m_bar_speed_recip s \<le> m_bar_count s + 1 then m_position s + 1 else m_position s)"
    and lt: "p < 19"
  shows "(\<not> game_switch i \<longrightarrow> m_button_invalid_time (update i s) = c_div FRAME_PER_SEC 10) \<and>
         (game_switch i \<longrightarrow> m_button_invalid_time (update i s) =
            (if m_button_invalid_time s > 0 then m_button_invalid_time s - 1
             else m_button_invalid_time s)) \<and>
         (m_button_invalid_time s \<le> 50 \<and> m_button_invalid_time (update i s) < m_button_invalid_time s
            \<longrightarrow> game_switch i) \<and>
         (16 \<le> p \<and> m_button_invalid_time s = 0 \<and> \<not> game_switch i \<longrightarrow>
            (\<forall>j. \<not> game_switch j \<longrightarrow> m_score (isr j (update i s)) = m_score (update i s)) \<and>
            (\<forall>js. (\<forall>j \<in> set js. \<not> game_switch j) \<longrightarrow>
                  m_score (run js (update i s)) \<le> m_score (update i s)))"
proof -
  define c where "c = (if m_bar_speed_recip s \<le> m_bar_count s + 1 then 0 else m_bar_count s + 1)"
  define hit where "hit = (16 \<le> p \<and> m_button_invalid_time s = 0 \<and> \<not> game_switch i)"
  note f = playing_continues [OF p c_def lt hit_def]
  have u: "update i s = playing i s" by (rule update_playing [OF st])
  have l: "m_button_invalid_time (update i s) =
          (if \<not> game_switch i then 50
           else if m_button_invalid_time s > 0 then m_button_invalid_time s - 1
           else m_button_invalid_time s)"
    unfolding u by (rule f)
  have a: "\<not> game_switch i \<longrightarrow> m_button_invalid_time (update i s) = c_div FRAME_PER_SEC 10"
    by (simp add: l)
  have b: "game_switch i \<longrightarrow> m_button_invalid_time (update i s) =
            (if m_button_invalid_time s > 0 then m_button_invalid_time s - 1
             else m_button_invalid_time s)"
    by (simp add: l)
  have d: "m_button_invalid_time s \<le> 50 \<and> m_button_invalid_time (update i s) < m_button_invalid_time s
            \<longrightarrow> game_switch i"
    by (auto simp: l)
  have e: "(\<forall>j. \<not> game_switch j \<longrightarrow> m_score (isr j (update i s)) = m_score (update i s)) \<and>
           (\<forall>js. (\<forall>j \<in> set js. \<not> game_switch j) \<longrightarrow>
                  m_score (run js (update i s)) \<le> m_score (update i s))"
    if h: "16 \<le> p \<and> m_button_invalid_time s = 0 \<and> \<not> game_switch i"
  proof -
    have pl: "m_update_func (update i s) = Playing" "m_button_invalid_time (update i s) = 50"
      "m_position (update i s) = 0"
      using h st f(2,6) l by (simp_all add: u [symmetric] hit_def)
    have hi: "held_inv (update i s)"
      using h sc f(1) pl by (simp add: held_inv_def u [symmetric] hit_def MAX_SCORE_def)
    have one: "m_score (isr j (update i s)) = m_score (update i s)" if pr: "\<not> game_switch j" for j
    proof -
      define t where "t = (if (global_timer (update i s) + 1) mod 4 = 0
        then change_digit ((update i s)\<lparr>global_timer := global_timer (update i s) + 1\<rparr>)
        else (update i s)\<lparr>global_timer := global_timer (update i s) + 1\<rparr>)"
      have i: "isr j (update i s) = update j t" by (simp add: isr_def Let_def t_def)
      have t: "m_update_func t = Playing" "m_button_invalid_time t = 50" "m_position t = 0"
        "m_score t = m_score (update i s)"
        using pl by (simp_all add: t_def)
      define q where "q = (if m_bar_speed_recip t \<le> m_bar_count t + 1 then m_position t + 1 else m_position t)"
      define c' where "c' = (if m_bar_speed_recip t \<le> m_bar_count t + 1 then 0 else m_bar_count t + 1)"
      define hit' where "hit' = (16 \<le> q \<and> m_button_invalid_time t = 0 \<and> \<not> game_switch j)"
      have "q < 19" using t by (simp add: q_def)
      note g = playing_continues [OF q_def c'_def this hit'_def]
      have "\<not> hit'" using t by (simp add: hit'_def)
      then have "m_score (playing j t) = m_score t" using g(1) by simp
      then show ?thesis by (simp add: i update_playing [OF t(1)] t(4))
    qed
    show ?thesis using one held_run [OF hi] by blast
  qed
  show ?thesis using a b d e by blast
qed

theorem lockout_debounce_witness:
  "m_button_invalid_time (update \<lparr>game_switch = False, high_score_switch = True,
       erase_score_switch = True, rand_value = 7\<rparr>
     ((boot 0)\<lparr>m_update_func := Playing, m_position := 16, m_bar_speed_recip := 24\<rparr>)) = 50 \<and>
   m_score (update \<lparr>game_switch = False, high_score_switch = True,
       erase_score_switch = True, rand_value = 7\<rparr>
     ((boot 0)\<lparr>m_update_func := Playing, m_position := 16, m_bar_speed_recip := 24\<rparr>)) = 1 \<and>
   m_score (isr \<lparr>game_switch = False, high_score_switch = True,
       erase_score_switch = True, rand_value = 9\<rparr>
     (update \<lparr>game_switch = False, high_score_switch = True,
       erase_score_switch = True, rand_value = 7\<rparr>
     ((boot 0)\<lparr>m_update_func := Playing, m_position := 16, m_bar_speed_recip := 24\<rparr>))) = 1 \<and>
   m_button_invalid_time (update \<lparr>game_switch = True, high_score_switch = True,
       erase_score_switch = True, rand_value = 7\<rparr>
     ((boot 0)\<lparr>m_update_func := Playing, m_button_invalid_time := 50,
        m_bar_speed_recip := 24\<rparr>)) = 49"
proof -
  have s: "m_score (update \<lparr>game_switch = False, high_score_switch = True,
       erase_score_switch = True, rand_value = 7\<rparr>
     ((boot 0)\<lparr>m_update_func := Playing, m_position := 16, m_bar_speed_recip := 24\<rparr>)) = 1"
    by (simp add: update_def playing_dwell playing_button_fields boot_fields MAX_SCORE_def)
  have a: "m_button_invalid_time (update \<lparr>game_switch = False, high_score_switch = True,
       erase_score_switch = True, rand_value = 7\<rparr>
     ((boot 0)\<lparr>m_update_func := Playing, m_position := 16, m_bar_speed_recip := 24\<rparr>)) = 50 \<and>
   m_score (isr \<lparr>game_switch = False, high_score_switch = True,
       erase_score_switch = True, rand_value = 9\<rparr>
     (update \<lparr>game_switch = False, high_score_switch = True,
       erase_score_switch = True, rand_value = 7\<rparr>
     ((boot 0)\<lparr>m_update_func := Playing, m_position := 16, m_bar_speed_recip := 24\<rparr>))) = 1"
    using lockout_debounce [of "(boot 0)\<lparr>m_update_func := Playing, m_position := 16, m_bar_speed_recip := 24\<rparr>"
      16 "\<lparr>game_switch = False, high_score_switch = True, erase_score_switch = True, rand_value = 7\<rparr>"]
    by (simp add: boot_fields s)
  have b: "m_button_invalid_time (update \<lparr>game_switch = True, high_score_switch = True,
       erase_score_switch = True, rand_value = 7\<rparr>
     ((boot 0)\<lparr>m_update_func := Playing, m_button_invalid_time := 50,
        m_bar_speed_recip := 24\<rparr>)) = 49"
    using lockout_debounce [of "(boot 0)\<lparr>m_update_func := Playing, m_button_invalid_time := 50,
        m_bar_speed_recip := 24\<rparr>"
      0 "\<lparr>game_switch = True, high_score_switch = True, erase_score_switch = True, rand_value = 7\<rparr>"]
    by (simp add: boot_fields)
  show ?thesis using s a b by blast
qed

text \<open>
  On the tick that ends the round \<open>playing\<close> returns before the lockout bookkeeping:
  with Position 18, the dwell counter about to expire and the play input asserted,
  Lockout is still 0 after the tick, not 50.
\<close>

theorem lockout_round_end_counterexample:
  "m_update_func ((boot 0)\<lparr>m_update_func := Playing, m_position := 18, m_bar_count := 23,
       m_bar_speed_recip := 24\<rparr>) = Playing \<and>
   \<not> game_switch \<lparr>game_switch = False, high_score_switch = True,
       erase_score_switch = True, rand_value = 7\<rparr> \<and>
   m_button_invalid_time (update \<lparr>game_switch = False, high_score_switch = True,
       erase_score_switch = True, rand_value = 7\<rparr>
     ((boot 0)\<lparr>m_update_func := Playing, m_position := 18, m_bar_count := 23,
       m_bar_speed_recip := 24\<rparr>)) = 0 \<and>
   c_div FRAME_PER_SEC 10 = 50"
  by (simp add: update_def playing_finish playing_round_over_fields boot_fields)


section \<open>The bar during a round\<close>

lemma m_pos_set_position:
  "m_pos (set_position pos s) = (if pos < 0 \<or> pos \<ge> 10 then m_pos s else pos)"
  by (simp add: set_position_def Let_def)

lemma pin_level_cong:
  assumes "portb t = portb s" "portc t = portc s" "portd t = portd s"
  shows "pin_level q t = pin_level q s"
  using assms by (cases "m_port q") (simp_all add: pin_level_def read_port_def)

lemma pin_level_set_position:
  assumes "0 \<le> pos" "pos < 10"
  shows "\<not> pin_level (bar_pin ! nat pos) (set_position pos s)"
  using assms by (simp add: set_position_def Let_def pin_level_reset)

lemma playing_bar:
  "m_pos (playing i s) =
     m_pos (set_position (playing_bar_position (m_position s)) (set_number (word_of_int (m_score s)) s))"
  "pin_level q (playing i s) =
     pin_level q (set_position (playing_bar_position (m_position s)) (set_number (word_of_int (m_score s)) s))"
proof -
  consider (dwell) "\<not> m_bar_speed_recip s \<le> m_bar_count s + 1"
    | (advance) "m_bar_speed_recip s \<le> m_bar_count s + 1" "m_position s + 1 < 19"
    | (finish) "m_bar_speed_recip s \<le> m_bar_count s + 1" "19 \<le> m_position s + 1"
    by linarith
  then have "m_pos (playing i s) =
     m_pos (set_position (playing_bar_position (m_position s)) (set_number (word_of_int (m_score s)) s)) \<and>
    pin_level q (playing i s) =
     pin_level q (set_position (playing_bar_position (m_position s)) (set_number (word_of_int (m_score s)) s))"
  proof cases
    case dwell
    show ?thesis
      unfolding playing_dwell [OF dwell]
      by (intro conjI pin_level_cong) (simp_all add: playing_button_fields)
  next
    case advance
    show ?thesis
      unfolding playing_advance [OF advance]
      by (intro conjI pin_level_cong) (simp_all add: playing_button_fields)
  next
    case finish
    show ?thesis
      unfolding playing_finish [OF finish]
      by (intro conjI pin_level_cong) (simp_all add: playing_round_over_fields)
  qed
  then show "m_pos (playing i s) =
     m_pos (set_position (playing_bar_position (m_position s)) (set_number (word_of_int (m_score s)) s))"
    and "pin_level q (playing i s) =
     pin_level q (set_position (playing_bar_position (m_position s)) (set_number (word_of_int (m_score s)) s))"
    by simp_all
qed

text \<open>
  C5. In the Playing state with Position \<open>p\<close> in [0,18], the index \<open>playing\<close> passes
  to \<open>bar.set_position\<close> is \<open>p\<close> for \<open>p\<close> in [0,9] and \<open>18 - p\<close> for \<open>p\<close> in [10,18];
  it lies in [0,9], the bar records it as its position and the line of that index is
  driven low. Whenever the handler starts in the Playing state, Position is in [0,18]:
  \<open>playing\<close> never renders Position 19.
\<close>

theorem playing_bar_index:
  assumes st: "m_update_func s = Playing"
    and lo: "0 \<le> m_position s" and hi: "m_position s \<le> 18"
  shows "playing_bar_position (m_position s) =
           (if m_position s \<le> 9 then m_position s else 18 - m_position s) \<and>
         0 \<le> playing_bar_position (m_position s) \<and>
         playing_bar_position (m_position s) \<le> 9 \<and>
         m_pos (update i s) = playing_bar_position (m_position s) \<and>
         \<not> pin_level (bar_pin ! nat (playing_bar_position (m_position s))) (update i s) \<and>
         (\<forall>is cell. m_update_func (run is (boot cell)) = Playing \<longrightarrow>
            0 \<le> m_position (run is (boot cell)) \<and> m_position (run is (boot cell)) \<le> 18)"
proof -
  have a: "playing_bar_position (m_position s) =
           (if m_position s \<le> 9 then m_position s else 18 - m_position s)"
    using hi by (simp add: playing_bar_position_def)
  have b: "0 \<le> playing_bar_position (m_position s)" "playing_bar_position (m_position s) \<le> 9"
    "playing_bar_position (m_position s) < 10"
    unfolding a using lo hi by simp_all
  have c: "m_pos (update i s) = playing_bar_position (m_position s)"
    using b by (simp add: update_playing [OF st] playing_bar m_pos_set_position)
  have d: "\<not> pin_level (bar_pin ! nat (playing_bar_position (m_position s))) (update i s)"
    using b by (simp add: update_playing [OF st] playing_bar pin_level_set_position)
  have e: "\<forall>is cell. m_update_func (run is (boot cell)) = Playing \<longrightarrow>
            0 \<le> m_position (run is (boot cell)) \<and> m_position (run is (boot cell)) \<le> 18"
    using reachable_inv by (simp add: game_inv_def)
  show ?thesis using a b c d e by blast
qed

theorem playing_bar_index_witness:
  "m_pos (update \<lparr>game_switch = True, high_score_switch = True,
       erase_score_switch = True, rand_value = 7\<rparr>
     ((boot 0)\<lparr>m_update_func := Playing, m_position := 13, m_bar_speed_recip := 24\<rparr>)) = 5 \<and>
   playing_bar_position 13 = 5 \<and>
   \<not> pin_level (pin PORTC 1) (update \<lparr>game_switch = True, high_score_switch = True,
       erase_score_switch = True, rand_value = 7\<rparr>
     ((boot 0)\<lparr>m_update_func := Playing, m_position := 13, m_bar_speed_recip := 24\<rparr>))"
proof -
  have i: "playing_bar_position 13 = 5"
    by (simp add: playing_bar_position_def)
  have n: "bar_pin ! 5 = pin PORTC 1"
    by (simp add: bar_pin_def)
  show ?thesis
    using playing_bar_index [of "(boot 0)\<lparr>m_update_func := Playing, m_position := 13, m_bar_speed_recip := 24\<rparr>"
      "\<lparr>game_switch = True, high_score_switch = True, erase_score_switch = True, rand_value = 7\<rparr>"]
    by (simp add: boot_fields i n)
qed


section \<open>The digit-select lines\<close>

lemma apply_writes_append:
  "apply_writes (xs @ ys) s = apply_writes ys (apply_writes xs s)"
  by (induction xs arbitrary: s) simp_all

lemma pin_level_apply_write_other:
  assumes "m_port (write_pin w) \<noteq> m_port q \<or> m_bit (write_pin w) \<noteq> m_bit q"
  shows "pin_level q (apply_write w s) = pin_level q s"
  using assms by (cases w) (auto simp: pin_level_set pin_level_reset)

lemma pin_level_apply_writes_other:
  assumes "\<forall>w \<in> set ws. m_port (write_pin w) \<noteq> m_port q \<or> m_bit (write_pin w) \<noteq> m_bit q"
  shows "pin_level q (apply_writes ws s) = pin_level q s"
  using assms
  by (induction ws arbitrary: s) (simp_all add: pin_level_apply_write_other)

lemma display_pin_port: "k < 7 \<Longrightarrow> m_port (display_pin ! k) = PORTD"
  by (simp add: display_pin_def pin_def nth_Cons split: nat.splits)

lemma bar_pin_port: "k < 10 \<Longrightarrow> m_port (bar_pin ! k) = PORTC \<or>
    (m_port (bar_pin ! k) = PORTB \<and> m_bit (bar_pin ! k) < 6)"
  by (simp add: bar_pin_def pin_def nth_Cons split: nat.splits)

lemma m_cathode_port: "k < 2 \<Longrightarrow> m_port (m_cathode ! k) = PORTB \<and> 6 \<le> m_bit (m_cathode ! k)
    \<and> m_bit (m_cathode ! k) < 8"
  by (simp add: m_cathode_def pin_def nth_Cons split: nat.splits)

lemma segment_writes_port:
  assumes "w \<in> set (seven_segments_set_number_writes n)"
  shows "m_port (write_pin w) = PORTD"
  using assms by (auto simp: seven_segments_set_number_writes_def display_pin_port split: if_splits)

lemma erase_writes_port:
  assumes "w \<in> set (map Reset_pin display_pin)"
  shows "m_port (write_pin w) = PORTD"
  using assms by (auto simp: display_pin_def pin_def)


lemma cathode_level_segment_writes:
  assumes "k < 2"
  shows "pin_level (m_cathode ! k) (apply_writes (take m (seven_segments_set_number_writes n)) s)
         = pin_level (m_cathode ! k) s"
proof (rule pin_level_apply_writes_other, rule ballI)
  fix w assume "w \<in> set (take m (seven_segments_set_number_writes n))"
  then have "w \<in> set (seven_segments_set_number_writes n)" by (rule in_set_takeD)
  then have "m_port (write_pin w) = PORTD" by (rule segment_writes_port)
  then show "m_port (write_pin w) \<noteq> m_port (m_cathode ! k) \<or> m_bit (write_pin w) \<noteq> m_bit (m_cathode ! k)"
    using m_cathode_port [OF assms] by simp
qed

lemma cathode_level_set:
  assumes "j < 2" "k < 2"
  shows "pin_level (m_cathode ! k) (output_pin_set (m_cathode ! j) s) =
         (pin_level (m_cathode ! k) s \<or> k = j)"
proof -
  have "j = 0 \<or> j = 1" "k = 0 \<or> k = 1" using assms by auto
  then show ?thesis
    by (auto simp: pin_level_set m_cathode_def pin_def)
qed

lemma cathode_level_reset:
  assumes "j < 2" "k < 2"
  shows "pin_level (m_cathode ! k) (output_pin_reset (m_cathode ! j) s) =
         (pin_level (m_cathode ! k) s \<and> k \<noteq> j)"
proof -
  have "j = 0 \<or> j = 1" "k = 0 \<or> k = 1" using assms by auto
  then show ?thesis
    by (auto simp: pin_level_reset m_cathode_def pin_def)
qed

lemma next_digit_cases:
  assumes "m_now_digit s = 0 \<or> m_now_digit s = 1"
  shows "next_digit (m_now_digit s) = (m_now_digit s + 1) mod Digit"
    and "next_digit (m_now_digit s) = 1 - m_now_digit s"
  using assms by (auto simp: next_digit_def Digit_def)

text \<open>The digit \<open>change_digit\<close> hands to the seven-segment display, in plain arithmetic.\<close>

lemma change_digit_number_eq:
  assumes "m_now_digit s = 0 \<or> m_now_digit s = 1"
  shows "change_digit_number s =
         int (unat (m_value s) div 10 ^ nat (next_digit (m_now_digit s)) mod 10)"
proof -
  have p: "pow10 (nat (next_digit (m_now_digit s))) = 10 ^ nat (next_digit (m_now_digit s))"
    using assms by (auto simp: next_digit_def Digit_def)
  have u: "unat ((10::u32) ^ nat (next_digit (m_now_digit s))) = 10 ^ nat (next_digit (m_now_digit s))"
    using assms by (auto simp: next_digit_def Digit_def)
  show ?thesis
    unfolding change_digit_number_def p
    by (simp add: uint_nat unat_mod unat_div u)
qed

text \<open>The machine after the first \<open>n\<close> pin writes of \<open>change_digit\<close>.\<close>

lemma change_digit_prefix:
  assumes inv: "cathode_inv s" and n: "n \<le> length (change_digit_writes s)" and k: "k < 2"
  shows "cathode_active k (apply_writes (take n (change_digit_writes s)) s) =
          (if n = 0 then cathode_active k s
           else if n < length (change_digit_writes s) then False
           else int k = next_digit (m_now_digit s))"
proof -
  define segs where "segs = (if m_valid s
      then seven_segments_set_number_writes (change_digit_number s) else [])"
  define old where "old = nat (m_now_digit s)"
  define new where "new = nat (next_digit (m_now_digit s))"
  have ws: "change_digit_writes s = Set_pin (m_cathode ! old) # segs @ [Reset_pin (m_cathode ! new)]"
    by (simp add: change_digit_writes_def segs_def old_def new_def)
  have len: "length (change_digit_writes s) = length segs + 2" by (simp add: ws)
  have on: "old < 2" "new < 2" "int old = m_now_digit s" "int new = next_digit (m_now_digit s)"
    "new \<noteq> old"
    using inv by (auto simp: cathode_inv_def old_def new_def next_digit_def Digit_def)
  have others: "k \<noteq> old \<Longrightarrow> pin_level (m_cathode ! k) s"
    using inv k on by (auto simp: cathode_inv_def cathode_active_def)
  have seg: "pin_level (m_cathode ! k) (apply_writes (take m segs) t) = pin_level (m_cathode ! k) t"
    for m t
    unfolding segs_def using cathode_level_segment_writes [OF k] by simp
  consider (zero) "n = 0" | (mid) m where "n = Suc m" "m \<le> length segs"
    | (all) "n = length segs + 2"
  proof (cases n)
    case 0
    then show ?thesis by (rule that(1))
  next
    case (Suc m)
    then have "m \<le> length segs \<or> m = Suc (length segs)" using n len by auto
    then show ?thesis using that(2,3) Suc by auto
  qed
  then show ?thesis
  proof cases
    case zero
    then show ?thesis by simp
  next
    case mid
    have "take n (change_digit_writes s) = Set_pin (m_cathode ! old) # take m segs"
      using mid by (simp add: ws)
    then have "pin_level (m_cathode ! k) (apply_writes (take n (change_digit_writes s)) s) =
        (pin_level (m_cathode ! k) s \<or> k = old)"
      by (simp add: seg cathode_level_set [OF on(1) k])
    then show ?thesis using mid len others by (auto simp: cathode_active_def)
  next
    case all
    have "take n (change_digit_writes s) = Set_pin (m_cathode ! old) # segs @ [Reset_pin (m_cathode ! new)]"
      using all by (simp add: ws)
    then have "pin_level (m_cathode ! k) (apply_writes (take n (change_digit_writes s)) s) =
        ((pin_level (m_cathode ! k) s \<or> k = old) \<and> k \<noteq> new)"
      using seg [of "length segs"]
      by (simp add: apply_writes_append cathode_level_set [OF on(1) k] cathode_level_reset [OF on(2) k])
    then show ?thesis using all len others on by (auto simp: cathode_active_def)
  qed
qed


lemma pin_level_apply_write_same:
  assumes "m_bit (write_pin w) < 8"
  shows "pin_level (write_pin w) (apply_write w s) = (\<exists>p. w = Set_pin p)"
  using assms by (cases w) (simp_all add: pin_level_set pin_level_reset)

lemma pin_level_apply_writes_distinct:
  assumes "distinct (map (\<lambda>w. (m_port (write_pin w), m_bit (write_pin w))) ws)"
    and "w \<in> set ws" and "m_bit (write_pin w) < 8"
  shows "pin_level (write_pin w) (apply_writes ws s) = (\<exists>p. w = Set_pin p)"
  using assms
proof (induction ws arbitrary: s)
  case Nil
  then show ?case by simp
next
  case (Cons v vs)
  show ?case
  proof (cases "w \<in> set vs")
    case True
    then show ?thesis using Cons by simp
  next
    case False
    then have v: "v = w" using Cons.prems(2) by simp
    have "\<forall>u \<in> set vs. m_port (write_pin u) \<noteq> m_port (write_pin w) \<or>
        m_bit (write_pin u) \<noteq> m_bit (write_pin w)"
      using Cons.prems(1) unfolding v by (auto simp: image_iff)
    then have "pin_level (write_pin w) (apply_writes vs (apply_write w s)) =
        pin_level (write_pin w) (apply_write w s)"
      by (rule pin_level_apply_writes_other)
    then show ?thesis
      by (simp add: v pin_level_apply_write_same [OF Cons.prems(3)])
  qed
qed

lemma segment_writes_nth:
  assumes "0 \<le> n" "n < 10" "k < 7"
  shows "length (seven_segments_set_number_writes n) = 7"
    and "write_pin (seven_segments_set_number_writes n ! k) = display_pin ! k"
    and "(\<exists>p. seven_segments_set_number_writes n ! k = Set_pin p) = bit (segment_data ! nat n) k"
  using assms
  by (simp_all add: seven_segments_set_number_writes_def bit_iff_and_push_bit_not_eq_0 del: upt_Suc)

lemma segment_writes_distinct:
  "distinct (map (\<lambda>w. (m_port (write_pin w), m_bit (write_pin w)))
      (seven_segments_set_number_writes n))"
proof (cases "n < 0 \<or> n \<ge> 10")
  case True
  then show ?thesis by (simp add: seven_segments_set_number_writes_def)
next
  case False
  have l: "length display_pin = 7" by (simp add: display_pin_def)
  have "map (\<lambda>w. (m_port (write_pin w), m_bit (write_pin w))) (seven_segments_set_number_writes n)
      = map (\<lambda>i. (\<lambda>p. (m_port p, m_bit p)) (display_pin ! i)) [0..<length display_pin]"
    unfolding l using False by (simp add: seven_segments_set_number_writes_def del: upt_Suc)
  also have "\<dots> = map (\<lambda>p. (m_port p, m_bit p)) display_pin"
    by (rule nth_equalityI) (simp_all del: upt_Suc)
  finally show ?thesis by (simp add: display_pin_def pin_def)
qed

lemma segments_rendered:
  assumes "0 \<le> n" "n < 10" "k < 7"
  shows "pin_level (display_pin ! k) (seven_segments_set_number n s) = bit (segment_data ! nat n) k"
proof -
  note f = segment_writes_nth [OF assms]
  have m: "seven_segments_set_number_writes n ! k \<in> set (seven_segments_set_number_writes n)"
    using f(1) assms(3) by simp
  have b: "m_bit (write_pin (seven_segments_set_number_writes n ! k)) < 8"
    using assms(3) unfolding f(2)
    by (simp add: display_pin_def pin_def nth_Cons split: nat.splits)
  show ?thesis
    using pin_level_apply_writes_distinct [OF segment_writes_distinct m b, of s]
    by (simp add: f seven_segments_set_number_def)
qed


lemma change_digit_number_range:
  assumes "m_now_digit s = 0 \<or> m_now_digit s = 1"
  shows "0 \<le> change_digit_number s" "change_digit_number s < 10"
  unfolding change_digit_number_eq [OF assms] by simp_all

lemma change_digit_rendered:
  assumes inv: "cathode_inv s" and v: "m_valid s" and k: "k < 7"
  shows "pin_level (display_pin ! k) (change_digit s) =
         bit (segment_data ! nat (change_digit_number s)) k"
proof -
  have now: "m_now_digit s = 0 \<or> m_now_digit s = 1" using inv by (simp add: cathode_inv_def)
  have c: "j < 2 \<Longrightarrow> m_port (m_cathode ! j) \<noteq> m_port (display_pin ! k)" for j
    using m_cathode_port [of j] display_pin_port [OF k] by simp
  have j: "nat (m_now_digit s) < 2" "nat (next_digit (m_now_digit s)) < 2"
    using now by (auto simp: next_digit_def Digit_def)
  have "pin_level (display_pin ! k) (change_digit s) =
        pin_level (display_pin ! k) (seven_segments_set_number (change_digit_number s)
          (output_pin_set (m_cathode ! nat (m_now_digit s)) (s\<lparr>m_now_digit := next_digit (m_now_digit s)\<rparr>)))"
    using v c [OF j(2)]
    by (simp add: change_digit_def change_digit_writes_def apply_writes_append
        seven_segments_set_number_def pin_level_reset)
  then show ?thesis
    by (simp add: segments_rendered [OF change_digit_number_range [OF now] k])
qed


section \<open>The outputs in every reachable state\<close>

lemma outputs_inv_cong:
  assumes "outputs_inv s" "portb t = portb s" "m_now_digit t = m_now_digit s" "m_pos t = m_pos s"
  shows "outputs_inv t"
proof -
  have "pin_level (m_cathode ! k) t = pin_level (m_cathode ! k) s" if "k < 2" for k
    using m_cathode_port [OF that] assms(2) by (simp add: pin_level_def read_port_def)
  then show ?thesis
    using assms by (simp add: outputs_inv_def cathode_inv_def cathode_active_def bar_inv_def)
qed

lemma portb_apply_writes_portd:
  assumes "\<forall>w \<in> set ws. m_port (write_pin w) = PORTD"
  shows "portb (apply_writes ws s) = portb s"
  using assms
proof (induction ws arbitrary: s)
  case Nil
  then show ?case by simp
next
  case (Cons w ws)
  have "portb (apply_write w s) = portb s"
    using Cons.prems
    by (cases w) (simp_all add: output_pin_set_def output_pin_reset_def write_port_def)
  then show ?case using Cons by simp
qed

lemma outputs_inv_erase_number: "outputs_inv s \<Longrightarrow> outputs_inv (erase_number s)"
  by (erule outputs_inv_cong)
     (simp_all add: erase_number_def seven_segments_erase_number_def portb_apply_writes_portd
        erase_writes_port)

lemma outputs_inv_set_number: "outputs_inv s \<Longrightarrow> outputs_inv (set_number v s)"
  by (cases "v \<ge> pow10 (nat Digit)")
     (simp_all add: set_number_def outputs_inv_erase_number outputs_inv_cong [of s])

lemma cathode_level_bar_pin:
  assumes "j < 10" "k < 2"
  shows "pin_level (m_cathode ! k) (output_pin_set (bar_pin ! j) s) = pin_level (m_cathode ! k) s"
    and "pin_level (m_cathode ! k) (output_pin_reset (bar_pin ! j) s) = pin_level (m_cathode ! k) s"
  using bar_pin_port [OF assms(1)] m_cathode_port [OF assms(2)]
  by (auto simp: pin_level_set pin_level_reset)

lemma outputs_inv_bar_write:
  assumes "outputs_inv s" "j < 10"
  shows "bar_inv t \<Longrightarrow> m_now_digit t = m_now_digit s \<Longrightarrow>
         portb t = portb (output_pin_set (bar_pin ! j) s) \<or>
         portb t = portb (output_pin_reset (bar_pin ! j) s) \<Longrightarrow> outputs_inv t"
proof -
  assume b: "bar_inv t" and n: "m_now_digit t = m_now_digit s"
    and p: "portb t = portb (output_pin_set (bar_pin ! j) s) \<or>
            portb t = portb (output_pin_reset (bar_pin ! j) s)"
  have "pin_level (m_cathode ! k) t = pin_level (m_cathode ! k) s" if k: "k < 2" for k
  proof -
    have "pin_level (m_cathode ! k) t = pin_level (m_cathode ! k) (output_pin_set (bar_pin ! j) s) \<or>
          pin_level (m_cathode ! k) t = pin_level (m_cathode ! k) (output_pin_reset (bar_pin ! j) s)"
      using p m_cathode_port [OF k] by (auto simp: pin_level_def read_port_def)
    then show ?thesis by (simp add: cathode_level_bar_pin [OF assms(2) k])
  qed
  then show ?thesis
    using assms(1) b n by (simp add: outputs_inv_def cathode_inv_def cathode_active_def)
qed

lemma outputs_inv_bar_erase: "outputs_inv s \<Longrightarrow> outputs_inv (bar_erase s)"
proof (cases "m_pos s = BAR_INVALID")
  case True
  then show "outputs_inv s \<Longrightarrow> outputs_inv (bar_erase s)" by (simp add: bar_erase_def)
next
  case False
  assume i: "outputs_inv s"
  then have j: "nat (m_pos s) < 10" using False by (auto simp: outputs_inv_def bar_inv_def)
  show "outputs_inv (bar_erase s)"
    by (rule outputs_inv_bar_write [OF i j]) (simp_all add: bar_erase_def False bar_inv_def)
qed

lemma outputs_inv_set_position: "outputs_inv s \<Longrightarrow> outputs_inv (set_position pos s)"
proof (cases "pos < 0 \<or> pos \<ge> 10")
  case True
  then show "outputs_inv s \<Longrightarrow> outputs_inv (set_position pos s)" by (simp add: set_position_def)
next
  case range: False
  assume i: "outputs_inv s"
  define s1 where "s1 = (if m_pos s \<noteq> BAR_INVALID then output_pin_set (bar_pin ! nat (m_pos s)) s else s)"
  have i1: "outputs_inv s1"
  proof (cases "m_pos s = BAR_INVALID")
    case True
    then show ?thesis using i by (simp add: s1_def)
  next
    case False
    then have j: "nat (m_pos s) < 10" using i by (auto simp: outputs_inv_def bar_inv_def)
    show ?thesis
      by (rule outputs_inv_bar_write [OF i j])
         (use i False in \<open>simp_all add: s1_def outputs_inv_def bar_inv_def\<close>)
  qed
  have e: "set_position pos s = output_pin_reset (bar_pin ! nat pos) (s1\<lparr>m_pos := pos\<rparr>)"
    using range by (simp add: set_position_def Let_def s1_def)
  have j: "nat pos < 10" using range by linarith
  have p: "portb (output_pin_reset p (t\<lparr>m_pos := x\<rparr>)) = portb (output_pin_reset p t)" for p t x
    by (cases "m_port p") (simp_all add: output_pin_reset_def write_port_def read_port_def)
  show "outputs_inv (set_position pos s)"
    unfolding e
    by (rule outputs_inv_bar_write [OF i1 j]) (use range in \<open>simp_all add: bar_inv_def p\<close>)
qed

lemma outputs_inv_erase_hight_score: "outputs_inv s \<Longrightarrow> outputs_inv (erase_hight_score s)"
  by (erule outputs_inv_cong) simp_all

lemma outputs_inv_init_game: "outputs_inv s \<Longrightarrow> outputs_inv (init_game i s)"
  by (erule outputs_inv_cong) (simp_all add: init_game_fields)

lemma outputs_inv_func: "outputs_inv s \<Longrightarrow> outputs_inv (s\<lparr>m_update_func := f\<rparr>)"
  by (erule outputs_inv_cong) simp_all

lemmas outputs_inv_ops = outputs_inv_set_number outputs_inv_erase_number
  outputs_inv_set_position outputs_inv_bar_erase outputs_inv_erase_hight_score
  outputs_inv_init_game outputs_inv_func

lemma outputs_inv_ready_to_start: "outputs_inv s \<Longrightarrow> outputs_inv (ready_to_start i s)"
  by (simp add: ready_to_start_def Let_def outputs_inv_ops)

lemma outputs_inv_show_high_score: "outputs_inv s \<Longrightarrow> outputs_inv (show_high_score i s)"
  by (simp add: show_high_score_def Let_def outputs_inv_ops)

lemma outputs_inv_show_score: "outputs_inv s \<Longrightarrow> outputs_inv (show_score i s)"
  by (simp add: show_score_def Let_def outputs_inv_ops)

lemma outputs_inv_blink_count: "outputs_inv s \<Longrightarrow> outputs_inv (s\<lparr>m_blink_count := b\<rparr>)"
  by (erule outputs_inv_cong) simp_all

lemma outputs_inv_show_score_blink:
  assumes "outputs_inv s"
  shows "outputs_inv (show_score_blink i s)"
  using assms
  by (simp add: show_score_blink_def Let_def outputs_inv_ops outputs_inv_blink_count)

lemma outputs_inv_playing:
  assumes "outputs_inv s"
  shows "outputs_inv (playing i s)"
proof -
  have r: "outputs_inv (set_position (playing_bar_position (m_position s))
      (set_number (word_of_int (m_score s)) s))"
    using assms by (simp add: outputs_inv_ops)
  consider (dwell) "\<not> m_bar_speed_recip s \<le> m_bar_count s + 1"
    | (advance) "m_bar_speed_recip s \<le> m_bar_count s + 1" "m_position s + 1 < 19"
    | (finish) "m_bar_speed_recip s \<le> m_bar_count s + 1" "19 \<le> m_position s + 1"
    by linarith
  then show ?thesis
  proof cases
    case dwell
    show ?thesis
      unfolding playing_dwell [OF dwell]
      by (rule outputs_inv_cong [OF r]) (simp_all add: playing_button_fields)
  next
    case advance
    show ?thesis
      unfolding playing_advance [OF advance]
      by (rule outputs_inv_cong [OF r]) (simp_all add: playing_button_fields)
  next
    case finish
    show ?thesis
      unfolding playing_finish [OF finish]
      by (rule outputs_inv_cong [OF r]) (simp_all add: playing_round_over_fields)
  qed
qed

lemma outputs_inv_update: "outputs_inv s \<Longrightarrow> outputs_inv (update i s)"
  by (cases "m_update_func s")
     (simp_all add: update_def outputs_inv_ready_to_start outputs_inv_show_high_score
        outputs_inv_playing outputs_inv_show_score_blink outputs_inv_show_score)

lemma ports_output_pin_set:
  "portb (output_pin_set p s) = (if m_port p = PORTB then portb s OR push_bit (m_bit p) 1 else portb s)"
  "portc (output_pin_set p s) = (if m_port p = PORTC then portc s OR push_bit (m_bit p) 1 else portc s)"
  "portd (output_pin_set p s) = (if m_port p = PORTD then portd s OR push_bit (m_bit p) 1 else portd s)"
  by (cases "m_port p"; simp add: output_pin_set_def write_port_def read_port_def)+

lemma ports_output_pin_reset:
  "portb (output_pin_reset p s) =
     (if m_port p = PORTB then portb s AND NOT (push_bit (m_bit p) 1) else portb s)"
  "portc (output_pin_reset p s) =
     (if m_port p = PORTC then portc s AND NOT (push_bit (m_bit p) 1) else portc s)"
  "portd (output_pin_reset p s) =
     (if m_port p = PORTD then portd s AND NOT (push_bit (m_bit p) 1) else portd s)"
  by (cases "m_port p"; simp add: output_pin_reset_def write_port_def read_port_def)+

lemma apply_write_ports_cong:
  assumes "portb t = portb s" "portc t = portc s" "portd t = portd s"
  shows "portb (apply_write w t) = portb (apply_write w s)"
    and "portc (apply_write w t) = portc (apply_write w s)"
    and "portd (apply_write w t) = portd (apply_write w s)"
  using assms
  by (cases w; simp add: ports_output_pin_set ports_output_pin_reset)+

lemma apply_writes_ports_cong:
  assumes "portb t = portb s" "portc t = portc s" "portd t = portd s"
  shows "portb (apply_writes ws t) = portb (apply_writes ws s) \<and>
         portc (apply_writes ws t) = portc (apply_writes ws s) \<and>
         portd (apply_writes ws t) = portd (apply_writes ws s)"
  using assms
proof (induction ws arbitrary: s t)
  case Nil
  then show ?case by simp
next
  case (Cons w ws)
  show ?case
    using Cons.IH [OF apply_write_ports_cong [OF Cons.prems, of w]] by simp
qed

lemma cathode_active_change_digit:
  assumes inv: "cathode_inv s" and k: "k < 2"
  shows "cathode_active k (change_digit s) = (int k = next_digit (m_now_digit s))"
proof -
  have "pin_level (m_cathode ! k) (change_digit s) =
        pin_level (m_cathode ! k) (apply_writes (change_digit_writes s) s)"
    unfolding change_digit_def
    using apply_writes_ports_cong [of "s\<lparr>m_now_digit := next_digit (m_now_digit s)\<rparr>" s
        "change_digit_writes s"]
    by (intro pin_level_cong) simp_all
  then show ?thesis
    using change_digit_prefix [OF inv le_refl k]
    by (simp add: cathode_active_def change_digit_writes_def)
qed


lemma outputs_inv_change_digit:
  assumes "outputs_inv s"
  shows "outputs_inv (change_digit s)"
proof -
  have c: "cathode_inv s" and b: "bar_inv s" using assms by (simp_all add: outputs_inv_def)
  have n: "m_now_digit (change_digit s) = next_digit (m_now_digit s)"
    by (simp add: change_digit_def)
  have "next_digit (m_now_digit s) = 0 \<or> next_digit (m_now_digit s) = 1"
    using c by (auto simp: cathode_inv_def next_digit_def Digit_def)
  then have "cathode_inv (change_digit s)"
    unfolding cathode_inv_def n using cathode_active_change_digit [OF c] by simp
  moreover have "bar_inv (change_digit s)"
    using b by (simp add: bar_inv_def)
  ultimately show ?thesis by (simp add: outputs_inv_def)
qed

lemma outputs_inv_timer: "outputs_inv s \<Longrightarrow> outputs_inv (s\<lparr>global_timer := t\<rparr>)"
  by (erule outputs_inv_cong) simp_all

lemma outputs_inv_isr: "outputs_inv s \<Longrightarrow> outputs_inv (isr i s)"
  by (simp add: isr_def Let_def outputs_inv_update outputs_inv_change_digit outputs_inv_timer)

lemma outputs_inv_boot: "outputs_inv (boot cell)"
proof -
  have p: "portb (boot cell) = 255"
    by (simp add: boot_def high_score_manager_init_def score_display_init_def
        seven_segments_erase_number_def bar_init_def io_init_def power_on_def
        m_cathode_def bar_pin_def display_pin_def pin_def
        ports_output_pin_set ports_output_pin_reset)
  have "pin_level (m_cathode ! k) (boot cell)" if "k < 2" for k
  proof -
    have "k = 0 \<or> k = 1" using that by auto
    then show ?thesis
      by (auto simp: pin_level_def read_port_def m_cathode_def pin_def p)
  qed
  then show ?thesis
    by (simp add: outputs_inv_def cathode_inv_def cathode_active_def bar_inv_def boot_fields
        BAR_INVALID_def)
qed

lemma outputs_inv_run: "outputs_inv s \<Longrightarrow> outputs_inv (run is s)"
  by (induction "is" arbitrary: s) (simp_all add: outputs_inv_isr)

lemma reachable_outputs_inv: "outputs_inv (run is (boot cell))"
  by (rule outputs_inv_run [OF outputs_inv_boot])


lemma boot_ports: "portb (boot cell) = 255" "portc (boot cell) = 63" "portd (boot cell) = 16"
  by (simp_all add: boot_def high_score_manager_init_def score_display_init_def
      seven_segments_erase_number_def bar_init_def io_init_def power_on_def
      m_cathode_def bar_pin_def display_pin_def pin_def
      ports_output_pin_set ports_output_pin_reset)

lemma segment_writes_pins:
  assumes "w \<in> set (seven_segments_set_number_writes n)"
  shows "\<exists>k<7. write_pin w = display_pin ! k"
  using assms by (auto simp: seven_segments_set_number_writes_def split: if_splits)

text \<open>
  C8. Called with a slot index of 0 or 1 and no digit-select line active other than the
  one of the current slot (which holds whenever the interrupt handler runs),
  \<open>change_digit\<close> performs these pin writes in this order: it drives the select line of
  the current slot high (inactive); it advances the slot index modulo the digit count;
  if a value is latched it writes the seven segment lines, and only those, to the
  pattern of the digit (value / 10^slot) mod 10 of the new slot; last it drives the
  select line of the new slot low (active). After any number of these writes the two
  select lines are never active together, and between the first and the last write
  neither is active.
\<close>

theorem change_digit_order:
  assumes inv: "cathode_inv s"
  shows "change_digit_writes s =
           Set_pin (m_cathode ! nat (m_now_digit s)) #
           (if m_valid s
            then seven_segments_set_number_writes
                   (int (unat (m_value s) div 10 ^ nat (m_now_digit (change_digit s)) mod 10))
            else []) @
           [Reset_pin (m_cathode ! nat (m_now_digit (change_digit s)))] \<and>
         change_digit s =
           apply_writes (change_digit_writes s) (s\<lparr>m_now_digit := (m_now_digit s + 1) mod Digit\<rparr>) \<and>
         (\<forall>w \<in> set (butlast (tl (change_digit_writes s))). \<exists>k<7. write_pin w = display_pin ! k) \<and>
         (m_valid s \<longrightarrow>
            (\<forall>k<7. pin_level (display_pin ! k) (change_digit s) =
               bit (segment_data ! (unat (m_value s) div 10 ^ nat (m_now_digit (change_digit s)) mod 10)) k)) \<and>
         (\<forall>n \<le> length (change_digit_writes s).
            \<not> (cathode_active 0 (apply_writes (take n (change_digit_writes s)) s) \<and>
               cathode_active 1 (apply_writes (take n (change_digit_writes s)) s))) \<and>
         (\<forall>n. 0 < n \<and> n < length (change_digit_writes s) \<longrightarrow>
            (\<forall>k<2. \<not> cathode_active k (apply_writes (take n (change_digit_writes s)) s))) \<and>
         (\<forall>k<2. cathode_active k (change_digit s) = (int k = m_now_digit (change_digit s))) \<and>
         (\<forall>is cell. cathode_inv (run is (boot cell)))"
proof -
  have now: "m_now_digit s = 0 \<or> m_now_digit s = 1" using inv by (simp add: cathode_inv_def)
  have n: "m_now_digit (change_digit s) = next_digit (m_now_digit s)"
    by (simp add: change_digit_def)
  note nd = next_digit_cases [OF now]
  note num = change_digit_number_eq [OF now]
  have 1: "change_digit_writes s =
           Set_pin (m_cathode ! nat (m_now_digit s)) #
           (if m_valid s
            then seven_segments_set_number_writes
                   (int (unat (m_value s) div 10 ^ nat (m_now_digit (change_digit s)) mod 10))
            else []) @
           [Reset_pin (m_cathode ! nat (m_now_digit (change_digit s)))]"
    by (simp add: change_digit_writes_def num n)
  have 2: "change_digit s =
           apply_writes (change_digit_writes s) (s\<lparr>m_now_digit := (m_now_digit s + 1) mod Digit\<rparr>)"
    by (simp add: change_digit_def nd(1))
  have 3: "\<forall>w \<in> set (butlast (tl (change_digit_writes s))). \<exists>k<7. write_pin w = display_pin ! k"
    using segment_writes_pins by (auto simp: change_digit_writes_def)
  have 4: "m_valid s \<longrightarrow>
            (\<forall>k<7. pin_level (display_pin ! k) (change_digit s) =
               bit (segment_data ! (unat (m_value s) div 10 ^ nat (m_now_digit (change_digit s)) mod 10)) k)"
    using change_digit_rendered [OF inv] by (simp add: num n)
  have 5: "\<forall>n \<le> length (change_digit_writes s).
            \<not> (cathode_active 0 (apply_writes (take n (change_digit_writes s)) s) \<and>
               cathode_active 1 (apply_writes (take n (change_digit_writes s)) s))"
  proof (intro allI impI)
    fix m assume m: "m \<le> length (change_digit_writes s)"
    have a: "cathode_active 0 s \<and> cathode_active 1 s \<Longrightarrow> False"
      using inv now by (auto simp: cathode_inv_def)
    show "\<not> (cathode_active 0 (apply_writes (take m (change_digit_writes s)) s) \<and>
               cathode_active 1 (apply_writes (take m (change_digit_writes s)) s))"
      using change_digit_prefix [OF inv m, of 0] change_digit_prefix [OF inv m, of 1] a
      by (auto split: if_splits)
  qed
  have 6: "\<forall>n. 0 < n \<and> n < length (change_digit_writes s) \<longrightarrow>
            (\<forall>k<2. \<not> cathode_active k (apply_writes (take n (change_digit_writes s)) s))"
    using change_digit_prefix [OF inv] by simp
  have 7: "\<forall>k<2. cathode_active k (change_digit s) = (int k = m_now_digit (change_digit s))"
    using cathode_active_change_digit [OF inv] by (simp add: n)
  have 8: "\<forall>is cell. cathode_inv (run is (boot cell))"
    using reachable_outputs_inv by (simp add: outputs_inv_def)
  show ?thesis using 1 2 3 4 5 6 7 8 by blast
qed

theorem change_digit_order_witness:
  "change_digit_writes ((boot 0)\<lparr>m_valid := True, m_value := 42\<rparr>) =
     Set_pin (m_cathode ! 0) # seven_segments_set_number_writes 4 @ [Reset_pin (m_cathode ! 1)] \<and>
   m_now_digit (change_digit ((boot 0)\<lparr>m_valid := True, m_value := 42\<rparr>)) = 1 \<and>
   cathode_active 1 (change_digit ((boot 0)\<lparr>m_valid := True, m_value := 42\<rparr>)) \<and>
   \<not> cathode_active 0 (change_digit ((boot 0)\<lparr>m_valid := True, m_value := 42\<rparr>))"
proof -
  have c: "cathode_inv ((boot 0)\<lparr>m_valid := True, m_value := 42\<rparr>)"
    by (simp add: cathode_inv_def cathode_active_def pin_level_def read_port_def m_cathode_def
        pin_def boot_fields boot_ports less_Suc_eq numeral_2_eq_2)
  have n: "m_now_digit (change_digit ((boot 0)\<lparr>m_valid := True, m_value := 42\<rparr>)) = 1"
    by (simp add: change_digit_def next_digit_def Digit_def boot_fields)
  note t = change_digit_order [OF c]
  note t7 = t [THEN conjunct2, THEN conjunct2, THEN conjunct2, THEN conjunct2, THEN conjunct2,
      THEN conjunct2, THEN conjunct1, rule_format]
  have w: "change_digit_writes ((boot 0)\<lparr>m_valid := True, m_value := 42\<rparr>) =
     Set_pin (m_cathode ! 0) # seven_segments_set_number_writes 4 @ [Reset_pin (m_cathode ! 1)]"
    using t [THEN conjunct1] by (simp add: n boot_fields)
  have a: "cathode_active 1 (change_digit ((boot 0)\<lparr>m_valid := True, m_value := 42\<rparr>))"
    using t7 [of 1] by (simp add: n)
  have b: "\<not> cathode_active 0 (change_digit ((boot 0)\<lparr>m_valid := True, m_value := 42\<rparr>))"
    using t7 [of 0] by (simp add: n)
  show ?thesis using w n a b by simp
qed


section \<open>The blinking score\<close>

lemma run_append: "run (xs @ ys) s = run ys (run xs s)"
  by (induction xs arbitrary: s) simp_all

lemma isr_show_score_blink:
  assumes "m_update_func s = Show_score_blink"
  shows "m_blink_count (isr i s) = m_blink_count s + 1"
    and "m_update_func (isr i s) =
           (if FRAME_PER_SEC * 3 \<le> m_blink_count s + 1 then Show_score else Show_score_blink)"
    and "m_score (isr i s) = m_score s"
proof -
  define t where "t = (if (global_timer s + 1) mod 4 = 0
    then change_digit (s\<lparr>global_timer := global_timer s + 1\<rparr>)
    else s\<lparr>global_timer := global_timer s + 1\<rparr>)"
  have t: "m_update_func t = Show_score_blink" "m_blink_count t = m_blink_count s"
    "m_score t = m_score s"
    using assms by (simp_all add: t_def)
  have i: "isr i s = show_score_blink i t"
    using t(1) by (simp add: isr_def Let_def t_def [symmetric] update_def)
  show "m_blink_count (isr i s) = m_blink_count s + 1"
    and "m_update_func (isr i s) =
           (if FRAME_PER_SEC * 3 \<le> m_blink_count s + 1 then Show_score else Show_score_blink)"
    and "m_score (isr i s) = m_score s"
    by (simp_all add: i show_score_blink_fields t)
qed

lemma blink_run:
  assumes "m_update_func s = Show_score_blink"
    and "m_blink_count s + int (length is) < FRAME_PER_SEC * 3"
  shows "m_update_func (run is s) = Show_score_blink \<and>
         m_blink_count (run is s) = m_blink_count s + int (length is) \<and>
         m_score (run is s) = m_score s"
  using assms
proof (induction "is" arbitrary: s)
  case Nil
  then show ?case by simp
next
  case (Cons j js)
  note f = isr_show_score_blink [OF Cons.prems(1), of j]
  have a: "m_update_func (isr j s) = Show_score_blink"
    using Cons.prems(2) by (simp add: f)
  have b: "m_blink_count (isr j s) + int (length js) < FRAME_PER_SEC * 3"
    using Cons.prems(2) by (simp add: f)
  show ?case using Cons.IH [OF a b] by (simp add: f)
qed

lemma blink_run_complete:
  assumes st: "m_update_func s = Show_score_blink"
    and len: "m_blink_count s + int (length is) = FRAME_PER_SEC * 3" "is \<noteq> []"
  shows "m_update_func (run is s) = Show_score"
proof -
  obtain js j where js: "is = js @ [j]"
    using len(2) by (cases "is" rule: rev_cases) auto
  have "m_blink_count s + int (length js) < FRAME_PER_SEC * 3"
    using len(1) by (simp add: js)
  from blink_run [OF st this]
  have a: "m_update_func (run js s) = Show_score_blink"
    "m_blink_count (run js s) = m_blink_count s + int (length js)"
    by simp_all
  show ?thesis
    using len(1) by (simp add: js run_append isr_show_score_blink [OF a(1)] a(2))
qed

lemma display_level_bar_pin:
  assumes "j < 10" "k < 7"
  shows "pin_level (display_pin ! k) (output_pin_set (bar_pin ! j) s) = pin_level (display_pin ! k) s"
    and "pin_level (display_pin ! k) (output_pin_reset (bar_pin ! j) s) = pin_level (display_pin ! k) s"
  using bar_pin_port [OF assms(1)] display_pin_port [OF assms(2)]
  by (auto simp: pin_level_set pin_level_reset)

lemma display_level_bar_erase:
  assumes "bar_inv s" "k < 7"
  shows "pin_level (display_pin ! k) (bar_erase s) = pin_level (display_pin ! k) s"
proof (cases "m_pos s = BAR_INVALID")
  case True
  then show ?thesis by (simp add: bar_erase_def)
next
  case False
  then have j: "nat (m_pos s) < 10" using assms(1) by (auto simp: bar_inv_def)
  have "pin_level (display_pin ! k) (bar_erase s) =
        pin_level (display_pin ! k) (output_pin_set (bar_pin ! nat (m_pos s)) s)"
    by (rule pin_level_cong) (simp_all add: bar_erase_def False)
  then show ?thesis by (simp add: display_level_bar_pin [OF j assms(2)])
qed

lemma display_level_set_position:
  assumes "bar_inv s" "k < 7"
  shows "pin_level (display_pin ! k) (set_position pos s) = pin_level (display_pin ! k) s"
proof (cases "pos < 0 \<or> pos \<ge> 10")
  case True
  then show ?thesis by (simp add: set_position_def)
next
  case range: False
  then have j: "nat pos < 10" by linarith
  define s1 where "s1 = (if m_pos s \<noteq> BAR_INVALID then output_pin_set (bar_pin ! nat (m_pos s)) s else s)"
  have 1: "pin_level (display_pin ! k) s1 = pin_level (display_pin ! k) s"
  proof (cases "m_pos s = BAR_INVALID")
    case True
    then show ?thesis by (simp add: s1_def)
  next
    case False
    then have "nat (m_pos s) < 10" using assms(1) by (auto simp: bar_inv_def)
    then show ?thesis using False by (simp add: s1_def display_level_bar_pin [OF _ assms(2)])
  qed
  have "pin_level (display_pin ! k) (set_position pos s) =
        pin_level (display_pin ! k) (output_pin_reset (bar_pin ! nat pos) s1)"
    using range
    by (intro pin_level_cong)
       (simp_all add: set_position_def Let_def s1_def ports_output_pin_reset)
  then show ?thesis by (simp add: display_level_bar_pin [OF j assms(2)] 1)
qed

lemma erase_number_blank:
  assumes "k < 7"
  shows "\<not> pin_level (display_pin ! k) (erase_number s)"
proof -
  have d: "distinct (map (\<lambda>w. (m_port (write_pin w), m_bit (write_pin w)))
      (map Reset_pin display_pin))"
    by (simp add: display_pin_def pin_def)
  have "length display_pin = 7" by (simp add: display_pin_def)
  then have "display_pin ! k \<in> set display_pin" using assms by (intro nth_mem) simp
  then have m: "Reset_pin (display_pin ! k) \<in> set (map Reset_pin display_pin)"
    unfolding set_map by (rule imageI)
  have b: "m_bit (write_pin (Reset_pin (display_pin ! k))) < 8"
    using assms by (simp add: display_pin_def pin_def nth_Cons split: nat.splits)
  show ?thesis
    using pin_level_apply_writes_distinct [OF d m b, of "s\<lparr>m_valid := False\<rparr>"]
    by (simp add: erase_number_def seven_segments_erase_number_def)
qed


lemma m_pos_bar_erase: "m_pos (bar_erase s) = BAR_INVALID"
  by (simp add: bar_erase_def)

lemma set_number_score:
  assumes "0 \<le> x" "x \<le> MAX_SCORE"
  shows "m_valid (set_number (word_of_int x) s)"
    and "m_value (set_number (word_of_int x) s) = word_of_int x"
    and "uint (word_of_int x :: u32) = x"
proof -
  show u: "uint (word_of_int x :: u32) = x"
    using assms by (simp add: MAX_SCORE_def uint_word_of_int)
  have p: "pow10 (nat Digit) = 100" by (simp add: Digit_def numeral_2_eq_2)
  have "\<not> (word_of_int x :: u32) \<ge> pow10 (nat Digit)"
    unfolding p using assms by (simp add: word_le_def u MAX_SCORE_def)
  then show "m_valid (set_number (word_of_int x) s)"
    and "m_value (set_number (word_of_int x) s) = word_of_int x"
    by (simp_all add: set_number_def)
qed

lemma m_valid_erase_number: "\<not> m_valid (erase_number s)"
  by (simp add: erase_number_def seven_segments_erase_number_def)

lemma show_score_blink_shown:
  assumes "c_rem (m_blink_count s) FRAME_PER_SEC < c_div FRAME_PER_SEC 2"
  shows "m_valid (show_score_blink i s) = m_valid (set_number (word_of_int (m_score s)) s)"
    and "m_value (show_score_blink i s) = m_value (set_number (word_of_int (m_score s)) s)"
  using assms by (simp_all add: show_score_blink_def Let_def)

lemma show_score_blink_blank:
  assumes "\<not> c_rem (m_blink_count s) FRAME_PER_SEC < c_div FRAME_PER_SEC 2"
    and "bar_inv s" and "k < 7"
  shows "\<not> m_valid (show_score_blink i s)"
    and "\<not> pin_level (display_pin ! k) (show_score_blink i s)"
proof -
  show "\<not> m_valid (show_score_blink i s)"
    using assms(1) by (simp add: show_score_blink_def Let_def m_valid_erase_number)
  define s2 where "s2 = (if m_blink_count s > FRAME_PER_SEC \<and> m_update_high_score s
                then (if c_rem (m_blink_count s) (c_div FRAME_PER_SEC 20) = 0
                      then set_position (c_rem (int (rand_value i)) 10) (erase_number s)
                      else erase_number s)
                else bar_erase (erase_number s))"
  have b: "bar_inv (erase_number s)" using assms(2) by (simp add: bar_inv_def)
  have "pin_level (display_pin ! k) s2 = pin_level (display_pin ! k) (erase_number s)"
    by (simp add: s2_def display_level_bar_erase [OF b assms(3)]
        display_level_set_position [OF b assms(3)])
  moreover have "pin_level (display_pin ! k) (show_score_blink i s) = pin_level (display_pin ! k) s2"
    using assms(1) by (intro pin_level_cong) (simp_all add: show_score_blink_def Let_def s2_def)
  ultimately show "\<not> pin_level (display_pin ! k) (show_score_blink i s)"
    by (simp add: erase_number_blank [OF assms(3)])
qed

lemma show_score_blink_bar:
  "m_pos (show_score_blink i s) =
     (if m_blink_count s > FRAME_PER_SEC \<and> m_update_high_score s
      then (if c_rem (m_blink_count s) (c_div FRAME_PER_SEC 20) = 0
            then c_rem (int (rand_value i)) 10 else m_pos s)
      else BAR_INVALID)"
proof -
  have r: "0 \<le> c_rem (int (rand_value i)) 10" "c_rem (int (rand_value i)) 10 < 10"
    by (simp_all add: c_rem_nonneg)
  show ?thesis
    using r by (auto simp: show_score_blink_def Let_def m_pos_bar_erase m_pos_set_position)
qed


lemma bar_pin_same:
  assumes "j < 10" "k < 10"
  shows "(m_port (bar_pin ! k) = m_port (bar_pin ! j) \<and> m_bit (bar_pin ! k) = m_bit (bar_pin ! j))
         = (k = j)"
proof -
  have l: "length bar_pin = 10" by (simp add: bar_pin_def)
  have d: "distinct (map (\<lambda>p. (m_port p, m_bit p)) bar_pin)"
    by (simp add: bar_pin_def pin_def)
  have "(map (\<lambda>p. (m_port p, m_bit p)) bar_pin ! k = map (\<lambda>p. (m_port p, m_bit p)) bar_pin ! j)
        = (k = j)"
    using assms l by (intro nth_eq_iff_index_eq [OF d]) simp_all
  then show ?thesis using assms l by simp
qed

lemma bar_pin_bit: "k < 10 \<Longrightarrow> m_bit (bar_pin ! k) < 8"
  by (simp add: bar_pin_def pin_def nth_Cons split: nat.splits)

lemma bar_level_set:
  assumes "j < 10" "k < 10"
  shows "pin_level (bar_pin ! k) (output_pin_set (bar_pin ! j) s) =
         (pin_level (bar_pin ! k) s \<or> k = j)"
  using bar_pin_same [OF assms] bar_pin_bit [OF assms(1)] by (auto simp: pin_level_set)

lemma bar_level_reset:
  assumes "j < 10" "k < 10"
  shows "pin_level (bar_pin ! k) (output_pin_reset (bar_pin ! j) s) =
         (pin_level (bar_pin ! k) s \<and> k \<noteq> j)"
  using bar_pin_same [OF assms] by (auto simp: pin_level_reset)

lemma bar_level_cong:
  assumes "portb t = portb s" "portc t = portc s" "k < 10"
  shows "pin_level (bar_pin ! k) t = pin_level (bar_pin ! k) s"
  using bar_pin_port [OF assms(3)] assms(1,2) by (auto simp: pin_level_def read_port_def)

lemma bar_lines_inv_cong:
  assumes "bar_lines_inv s" "portb t = portb s" "portc t = portc s" "m_pos t = m_pos s"
  shows "bar_lines_inv t"
  using assms by (simp add: bar_lines_inv_def bar_inv_def bar_level_cong [of t s])

lemma bar_erase_lines:
  assumes "bar_lines_inv s" "k < 10"
  shows "pin_level (bar_pin ! k) (bar_erase s)"
proof (cases "m_pos s = BAR_INVALID")
  case True
  then show ?thesis using assms by (simp add: bar_erase_def bar_lines_inv_def BAR_INVALID_def)
next
  case False
  then have j: "nat (m_pos s) < 10" "int (nat (m_pos s)) = m_pos s"
    using assms(1) by (auto simp: bar_lines_inv_def bar_inv_def)
  have "pin_level (bar_pin ! k) (bar_erase s) =
        pin_level (bar_pin ! k) (output_pin_set (bar_pin ! nat (m_pos s)) s)"
    by (rule pin_level_cong) (simp_all add: bar_erase_def False)
  then show ?thesis
    using assms j by (auto simp: bar_level_set [OF j(1) assms(2)] bar_lines_inv_def)
qed

lemma bar_lines_inv_bar_erase:
  assumes "bar_lines_inv s"
  shows "bar_lines_inv (bar_erase s)"
  using bar_erase_lines [OF assms]
  by (simp add: bar_lines_inv_def bar_inv_def m_pos_bar_erase BAR_INVALID_def)

lemma set_position_lines:
  assumes inv: "bar_lines_inv s" and range: "0 \<le> pos" "pos < 10" and k: "k < 10"
  shows "pin_level (bar_pin ! k) (set_position pos s) = (int k \<noteq> pos)"
proof -
  define s1 where "s1 = (if m_pos s \<noteq> BAR_INVALID then output_pin_set (bar_pin ! nat (m_pos s)) s else s)"
  have 1: "pin_level (bar_pin ! k) s1"
  proof (cases "m_pos s = BAR_INVALID")
    case True
    then show ?thesis using inv k by (simp add: s1_def bar_lines_inv_def BAR_INVALID_def)
  next
    case False
    then have j: "nat (m_pos s) < 10" "int (nat (m_pos s)) = m_pos s"
      using inv by (auto simp: bar_lines_inv_def bar_inv_def)
    show ?thesis
      using False inv k j by (auto simp: s1_def bar_level_set [OF j(1) k] bar_lines_inv_def)
  qed
  have j: "nat pos < 10" using range by linarith
  have "pin_level (bar_pin ! k) (set_position pos s) =
        pin_level (bar_pin ! k) (output_pin_reset (bar_pin ! nat pos) s1)"
    using range
    by (intro pin_level_cong)
       (simp_all add: set_position_def Let_def s1_def ports_output_pin_reset)
  then show ?thesis using 1 range by (auto simp: bar_level_reset [OF j k])
qed

lemma bar_lines_inv_set_position:
  assumes "bar_lines_inv s"
  shows "bar_lines_inv (set_position pos s)"
proof (cases "pos < 0 \<or> pos \<ge> 10")
  case True
  then show ?thesis using assms by (simp add: set_position_def)
next
  case False
  then have r: "0 \<le> pos" "pos < 10" by simp_all
  show ?thesis
    using set_position_lines [OF assms r] r
    by (simp add: bar_lines_inv_def bar_inv_def m_pos_set_position)
qed


lemma portc_apply_writes_portd:
  assumes "\<forall>w \<in> set ws. m_port (write_pin w) = PORTD"
  shows "portc (apply_writes ws s) = portc s"
  using assms
proof (induction ws arbitrary: s)
  case Nil
  then show ?case by simp
next
  case (Cons w ws)
  have "portc (apply_write w s) = portc s"
    using Cons.prems
    by (cases w) (simp_all add: ports_output_pin_set ports_output_pin_reset)
  then show ?case using Cons by simp
qed

lemma bar_lines_inv_erase_number: "bar_lines_inv s \<Longrightarrow> bar_lines_inv (erase_number s)"
  by (erule bar_lines_inv_cong)
     (simp_all add: erase_number_def seven_segments_erase_number_def portb_apply_writes_portd
        portc_apply_writes_portd erase_writes_port)

lemma bar_lines_inv_set_number: "bar_lines_inv s \<Longrightarrow> bar_lines_inv (set_number v s)"
  by (cases "v \<ge> pow10 (nat Digit)")
     (simp_all add: set_number_def bar_lines_inv_erase_number bar_lines_inv_cong [of s])

lemma bar_lines_inv_erase_hight_score: "bar_lines_inv s \<Longrightarrow> bar_lines_inv (erase_hight_score s)"
  by (erule bar_lines_inv_cong) simp_all

lemma bar_lines_inv_init_game: "bar_lines_inv s \<Longrightarrow> bar_lines_inv (init_game i s)"
  by (erule bar_lines_inv_cong) (simp_all add: init_game_fields)

lemma bar_lines_inv_func: "bar_lines_inv s \<Longrightarrow> bar_lines_inv (s\<lparr>m_update_func := f\<rparr>)"
  by (erule bar_lines_inv_cong) simp_all

lemma bar_lines_inv_blink_count: "bar_lines_inv s \<Longrightarrow> bar_lines_inv (s\<lparr>m_blink_count := b\<rparr>)"
  by (erule bar_lines_inv_cong) simp_all

lemma bar_lines_inv_timer: "bar_lines_inv s \<Longrightarrow> bar_lines_inv (s\<lparr>global_timer := t\<rparr>)"
  by (erule bar_lines_inv_cong) simp_all

lemmas bar_lines_inv_ops = bar_lines_inv_set_number bar_lines_inv_erase_number
  bar_lines_inv_set_position bar_lines_inv_bar_erase bar_lines_inv_erase_hight_score
  bar_lines_inv_init_game bar_lines_inv_func bar_lines_inv_blink_count

lemma bar_lines_inv_ready_to_start: "bar_lines_inv s \<Longrightarrow> bar_lines_inv (ready_to_start i s)"
  by (simp add: ready_to_start_def Let_def bar_lines_inv_ops)

lemma bar_lines_inv_show_high_score: "bar_lines_inv s \<Longrightarrow> bar_lines_inv (show_high_score i s)"
  by (simp add: show_high_score_def Let_def bar_lines_inv_ops)

lemma bar_lines_inv_show_score: "bar_lines_inv s \<Longrightarrow> bar_lines_inv (show_score i s)"
  by (simp add: show_score_def Let_def bar_lines_inv_ops)

lemma bar_lines_inv_show_score_blink:
  "bar_lines_inv s \<Longrightarrow> bar_lines_inv (show_score_blink i s)"
  by (simp add: show_score_blink_def Let_def bar_lines_inv_ops)

lemma bar_lines_inv_playing:
  assumes "bar_lines_inv s"
  shows "bar_lines_inv (playing i s)"
proof -
  have r: "bar_lines_inv (set_position (playing_bar_position (m_position s))
      (set_number (word_of_int (m_score s)) s))"
    using assms by (simp add: bar_lines_inv_ops)
  consider (dwell) "\<not> m_bar_speed_recip s \<le> m_bar_count s + 1"
    | (advance) "m_bar_speed_recip s \<le> m_bar_count s + 1" "m_position s + 1 < 19"
    | (finish) "m_bar_speed_recip s \<le> m_bar_count s + 1" "19 \<le> m_position s + 1"
    by linarith
  then show ?thesis
  proof cases
    case dwell
    show ?thesis
      unfolding playing_dwell [OF dwell]
      by (rule bar_lines_inv_cong [OF r]) (simp_all add: playing_button_fields)
  next
    case advance
    show ?thesis
      unfolding playing_advance [OF advance]
      by (rule bar_lines_inv_cong [OF r]) (simp_all add: playing_button_fields)
  next
    case finish
    show ?thesis
      unfolding playing_finish [OF finish]
      by (rule bar_lines_inv_cong [OF r]) (simp_all add: playing_round_over_fields)
  qed
qed

lemma bar_lines_inv_update: "bar_lines_inv s \<Longrightarrow> bar_lines_inv (update i s)"
  by (cases "m_update_func s")
     (simp_all add: update_def bar_lines_inv_ready_to_start bar_lines_inv_show_high_score
        bar_lines_inv_playing bar_lines_inv_show_score_blink bar_lines_inv_show_score)

lemma bar_level_change_digit:
  assumes c: "cathode_inv s" and k: "k < 10"
  shows "pin_level (bar_pin ! k) (change_digit s) = pin_level (bar_pin ! k) s"
proof -
  have now: "nat (m_now_digit s) < 2" "nat (next_digit (m_now_digit s)) < 2"
    using c by (auto simp: cathode_inv_def next_digit_def Digit_def)
  have other: "m_port (write_pin w) \<noteq> m_port (bar_pin ! k) \<or>
      m_bit (write_pin w) \<noteq> m_bit (bar_pin ! k)"
    if mem: "w \<in> set (change_digit_writes s)" for w
  proof -
    consider "w = Set_pin (m_cathode ! nat (m_now_digit s))"
      | "w = Reset_pin (m_cathode ! nat (next_digit (m_now_digit s)))"
      | "w \<in> set (seven_segments_set_number_writes (change_digit_number s))"
      using mem by (auto simp: change_digit_writes_def split: if_splits)
    then show ?thesis
    proof cases
      case 1
      then show ?thesis using m_cathode_port [OF now(1)] bar_pin_port [OF k] by auto
    next
      case 2
      then show ?thesis using m_cathode_port [OF now(2)] bar_pin_port [OF k] by auto
    next
      case 3
      then show ?thesis using segment_writes_port [OF 3] bar_pin_port [OF k] by auto
    qed
  qed
  have "pin_level (bar_pin ! k) (change_digit s) =
        pin_level (bar_pin ! k) (apply_writes (change_digit_writes s) s)"
    unfolding change_digit_def
    using apply_writes_ports_cong [of "s\<lparr>m_now_digit := next_digit (m_now_digit s)\<rparr>" s
        "change_digit_writes s"]
    by (intro pin_level_cong) simp_all
  also have "\<dots> = pin_level (bar_pin ! k) s"
    by (rule pin_level_apply_writes_other) (use other in blast)
  finally show ?thesis .
qed

lemma bar_lines_inv_change_digit:
  assumes "cathode_inv s" "bar_lines_inv s"
  shows "bar_lines_inv (change_digit s)"
  using assms(2) by (simp add: bar_lines_inv_def bar_inv_def bar_level_change_digit [OF assms(1)])

lemma bar_lines_inv_isr:
  assumes o: "outputs_inv s" and b: "bar_lines_inv s"
  shows "bar_lines_inv (isr i s)"
proof -
  have c: "cathode_inv (s\<lparr>global_timer := global_timer s + 1\<rparr>)"
    using outputs_inv_timer [OF o] by (simp add: outputs_inv_def)
  show ?thesis
    using bar_lines_inv_change_digit [OF c bar_lines_inv_timer [OF b]] bar_lines_inv_timer [OF b]
    by (simp add: isr_def Let_def bar_lines_inv_update)
qed

lemma bar_lines_inv_boot: "bar_lines_inv (boot cell)"
proof -
  have "pin_level (bar_pin ! k) (boot cell)" if "k < 10" for k
    using that
    by (simp add: pin_level_def read_port_def boot_ports bar_pin_def pin_def nth_Cons
        split: nat.splits)
  then show ?thesis
    by (simp add: bar_lines_inv_def bar_inv_def boot_fields BAR_INVALID_def)
qed

lemma bar_lines_inv_run:
  assumes "outputs_inv s" "bar_lines_inv s"
  shows "bar_lines_inv (run is s)"
  using assms
  by (induction "is" arbitrary: s) (simp_all add: outputs_inv_isr bar_lines_inv_isr)

lemma reachable_bar_lines_inv: "bar_lines_inv (run is (boot cell))"
  by (rule bar_lines_inv_run [OF outputs_inv_boot bar_lines_inv_boot])


text \<open>
  C6. In the ScoreBlink state with Score in [0,99] and the bar's lines agreeing with its
  position (which holds whenever the interrupt handler runs): on a tick whose blink
  counter modulo the tick rate (500) is below 250 the display latches Score, otherwise
  the display is blanked (nothing latched, all segment lines low). While the blink
  counter is at most 500, which covers the first second, and whenever no new high score
  was marked, the bar is erased: its position is \<open>BAR_INVALID\<close> and all ten lines are
  high, so no LED is lit. Past 500 with the mark set, the bar is set to \<open>rand() % 10\<close>,
  a position in [0,9], on every tick whose blink counter is a multiple of 25 (20 times a
  second) and left alone on the other ticks; then exactly the line of the bar's position
  is low. Entered with blink counter 0, the state is still ScoreBlink after every number
  of ticks below 1500 (3 times the tick rate) and is ShowingScore after exactly 1500
  ticks.
\<close>

theorem score_blink:
  assumes st: "m_update_func s = Show_score_blink"
    and sc: "0 \<le> m_score s" "m_score s \<le> MAX_SCORE"
    and b: "0 \<le> m_blink_count s"
    and bar: "bar_lines_inv s"
  shows "(m_blink_count s mod FRAME_PER_SEC < FRAME_PER_SEC div 2 \<longrightarrow>
            m_valid (update i s) \<and> uint (m_value (update i s)) = m_score s) \<and>
         (\<not> m_blink_count s mod FRAME_PER_SEC < FRAME_PER_SEC div 2 \<longrightarrow>
            \<not> m_valid (update i s) \<and> (\<forall>k<7. \<not> pin_level (display_pin ! k) (update i s))) \<and>
         (m_blink_count s \<le> FRAME_PER_SEC \<or> \<not> m_update_high_score s \<longrightarrow>
            m_pos (update i s) = BAR_INVALID \<and>
            (\<forall>k<10. pin_level (bar_pin ! k) (update i s))) \<and>
         (FRAME_PER_SEC < m_blink_count s \<and> m_update_high_score s \<longrightarrow>
            m_pos (update i s) =
              (if m_blink_count s mod (FRAME_PER_SEC div 20) = 0 then int (rand_value i mod 10)
               else m_pos s) \<and>
            int (rand_value i mod 10) \<le> 9 \<and>
            (\<forall>k<10. (\<not> pin_level (bar_pin ! k) (update i s)) = (int k = m_pos (update i s)))) \<and>
         (\<forall>is. m_blink_count s = 0 \<longrightarrow>
            (int (length is) < 3 * FRAME_PER_SEC \<longrightarrow>
               m_update_func (run is s) = Show_score_blink \<and>
               m_blink_count (run is s) = int (length is) \<and>
               m_score (run is s) = m_score s) \<and>
            (int (length is) = 3 * FRAME_PER_SEC \<longrightarrow> m_update_func (run is s) = Show_score)) \<and>
         (\<forall>is cell. bar_lines_inv (run is (boot cell)))"
proof -
  have u: "update i s = show_score_blink i s" using st by (simp add: update_def)
  have bi: "bar_inv s" using bar by (simp add: bar_lines_inv_def)
  have lines: "\<forall>k<10. (\<not> pin_level (bar_pin ! k) (update i s)) = (int k = m_pos (update i s))"
    using bar_lines_inv_show_score_blink [OF bar, of i] by (simp add: u bar_lines_inv_def)
  have d: "c_div FRAME_PER_SEC 20 = FRAME_PER_SEC div 20" "c_div FRAME_PER_SEC 2 = FRAME_PER_SEC div 2"
    unfolding FRAME_PER_SEC_def by (simp_all add: c_div_nonneg)
  have m: "c_rem (m_blink_count s) FRAME_PER_SEC = m_blink_count s mod FRAME_PER_SEC"
    "c_rem (m_blink_count s) (c_div FRAME_PER_SEC 20) = m_blink_count s mod (FRAME_PER_SEC div 20)"
    "c_div FRAME_PER_SEC 2 = FRAME_PER_SEC div 2"
    unfolding d using b by (simp_all add: c_rem_nonneg FRAME_PER_SEC_def)
  have r: "c_rem (int (rand_value i)) 10 = int (rand_value i mod 10)"
    by (simp add: c_rem_nonneg zmod_int)
  have 1: "m_blink_count s mod FRAME_PER_SEC < FRAME_PER_SEC div 2 \<longrightarrow>
            m_valid (update i s) \<and> uint (m_value (update i s)) = m_score s"
    unfolding u m [symmetric]
    by (simp add: show_score_blink_shown set_number_score [OF sc])
  have 2: "\<not> m_blink_count s mod FRAME_PER_SEC < FRAME_PER_SEC div 2 \<longrightarrow>
            \<not> m_valid (update i s) \<and> (\<forall>k<7. \<not> pin_level (display_pin ! k) (update i s))"
    unfolding u m [symmetric]
    using show_score_blink_blank(1) [OF _ bi, of 0 i]
      show_score_blink_blank(2) [OF _ bi, of _ i]
    by auto
  have 3: "m_blink_count s \<le> FRAME_PER_SEC \<or> \<not> m_update_high_score s \<longrightarrow>
            m_pos (update i s) = BAR_INVALID \<and>
            (\<forall>k<10. pin_level (bar_pin ! k) (update i s))"
  proof
    assume a: "m_blink_count s \<le> FRAME_PER_SEC \<or> \<not> m_update_high_score s"
    then have e: "m_pos (update i s) = BAR_INVALID"
      unfolding u by (auto simp: show_score_blink_bar)
    then have "\<forall>k<10. pin_level (bar_pin ! k) (update i s)"
      using lines by (simp add: BAR_INVALID_def)
    then show "m_pos (update i s) = BAR_INVALID \<and> (\<forall>k<10. pin_level (bar_pin ! k) (update i s))"
      using e by simp
  qed
  have 4: "FRAME_PER_SEC < m_blink_count s \<and> m_update_high_score s \<longrightarrow>
            m_pos (update i s) =
              (if m_blink_count s mod (FRAME_PER_SEC div 20) = 0 then int (rand_value i mod 10)
               else m_pos s) \<and>
            int (rand_value i mod 10) \<le> 9 \<and>
            (\<forall>k<10. (\<not> pin_level (bar_pin ! k) (update i s)) = (int k = m_pos (update i s)))"
  proof -
    have "rand_value i mod 10 < 10" by simp
    then have "int (rand_value i mod 10) \<le> 9" by linarith
    moreover have "FRAME_PER_SEC < m_blink_count s \<and> m_update_high_score s \<longrightarrow>
        m_pos (update i s) =
              (if m_blink_count s mod (FRAME_PER_SEC div 20) = 0 then int (rand_value i mod 10)
               else m_pos s)"
      unfolding u show_score_blink_bar m r by simp
    ultimately show ?thesis using lines by blast
  qed
  have 5: "\<forall>is. m_blink_count s = 0 \<longrightarrow>
            (int (length is) < 3 * FRAME_PER_SEC \<longrightarrow>
               m_update_func (run is s) = Show_score_blink \<and>
               m_blink_count (run is s) = int (length is) \<and>
               m_score (run is s) = m_score s) \<and>
            (int (length is) = 3 * FRAME_PER_SEC \<longrightarrow> m_update_func (run is s) = Show_score)"
  proof (intro allI impI conjI)
    fix "is" :: "inputs list" assume z: "m_blink_count s = 0" and l: "int (length is) < 3 * FRAME_PER_SEC"
    have "m_blink_count s + int (length is) < FRAME_PER_SEC * 3" using z l by simp
    from blink_run [OF st this]
    show "m_update_func (run is s) = Show_score_blink"
      and "m_blink_count (run is s) = int (length is)"
      and "m_score (run is s) = m_score s"
      using z by simp_all
  next
    fix "is" :: "inputs list" assume z: "m_blink_count s = 0" and l: "int (length is) = 3 * FRAME_PER_SEC"
    have a: "m_blink_count s + int (length is) = FRAME_PER_SEC * 3" using z l by simp
    have n: "is \<noteq> []" using l by (auto simp: FRAME_PER_SEC_def)
    show "m_update_func (run is s) = Show_score"
      by (rule blink_run_complete [OF st a n])
  qed
  have 6: "\<forall>is cell. bar_lines_inv (run is (boot cell))"
    using reachable_bar_lines_inv by simp
  show ?thesis using 1 2 3 4 5 6 by blast
qed


theorem score_blink_witness:
  "\<not> pin_level (bar_pin ! 3) ((set_position 3 (boot 0))\<lparr>m_update_func := Show_score_blink, m_score := 7\<rparr>) \<and>
   m_valid (update \<lparr>game_switch = True, high_score_switch = True, erase_score_switch = True, rand_value = 7\<rparr>
     ((set_position 3 (boot 0))\<lparr>m_update_func := Show_score_blink, m_score := 7\<rparr>)) \<and>
   uint (m_value (update \<lparr>game_switch = True, high_score_switch = True, erase_score_switch = True, rand_value = 7\<rparr>
     ((set_position 3 (boot 0))\<lparr>m_update_func := Show_score_blink, m_score := 7\<rparr>))) = 7 \<and>
   m_pos (update \<lparr>game_switch = True, high_score_switch = True, erase_score_switch = True, rand_value = 7\<rparr>
     ((set_position 3 (boot 0))\<lparr>m_update_func := Show_score_blink, m_score := 7\<rparr>)) = BAR_INVALID \<and>
   pin_level (bar_pin ! 3) (update \<lparr>game_switch = True, high_score_switch = True, erase_score_switch = True, rand_value = 7\<rparr>
     ((set_position 3 (boot 0))\<lparr>m_update_func := Show_score_blink, m_score := 7\<rparr>)) \<and>
   m_blink_count (run [\<lparr>game_switch = True, high_score_switch = True, erase_score_switch = True, rand_value = 7\<rparr>]
     ((set_position 3 (boot 0))\<lparr>m_update_func := Show_score_blink, m_score := 7\<rparr>)) = 1 \<and>
   \<not> m_valid (update \<lparr>game_switch = True, high_score_switch = True, erase_score_switch = True, rand_value = 7\<rparr>
     ((set_position 3 (boot 0))\<lparr>m_update_func := Show_score_blink, m_score := 7,
        m_blink_count := 300\<rparr>)) \<and>
   m_pos (update \<lparr>game_switch = True, high_score_switch = True, erase_score_switch = True, rand_value = 7\<rparr>
     ((set_position 3 (boot 0))\<lparr>m_update_func := Show_score_blink, m_score := 7,
        m_blink_count := 525, m_update_high_score := True\<rparr>)) = 7 \<and>
   \<not> pin_level (bar_pin ! 7) (update \<lparr>game_switch = True, high_score_switch = True, erase_score_switch = True, rand_value = 7\<rparr>
     ((set_position 3 (boot 0))\<lparr>m_update_func := Show_score_blink, m_score := 7,
        m_blink_count := 525, m_update_high_score := True\<rparr>)) \<and>
   pin_level (bar_pin ! 3) (update \<lparr>game_switch = True, high_score_switch = True, erase_score_switch = True, rand_value = 7\<rparr>
     ((set_position 3 (boot 0))\<lparr>m_update_func := Show_score_blink, m_score := 7,
        m_blink_count := 525, m_update_high_score := True\<rparr>))"
proof -
  let ?i = "\<lparr>game_switch = True, high_score_switch = True, erase_score_switch = True, rand_value = 7\<rparr>"
  let ?s = "((set_position 3 (boot 0))\<lparr>m_update_func := Show_score_blink, m_score := 7\<rparr>)"
  let ?s2 = "((set_position 3 (boot 0))\<lparr>m_update_func := Show_score_blink, m_score := 7,
        m_blink_count := 300\<rparr>)"
  let ?s3 = "((set_position 3 (boot 0))\<lparr>m_update_func := Show_score_blink, m_score := 7,
        m_blink_count := 525, m_update_high_score := True\<rparr>)"
  have base: "bar_lines_inv (set_position 3 (boot 0))"
    by (rule bar_lines_inv_set_position [OF bar_lines_inv_boot])
  have f: "m_blink_count (set_position 3 (boot 0)) = 0" "m_pos (set_position 3 (boot 0)) = 3"
    by (simp_all add: boot_fields m_pos_set_position)
  have lit: "\<not> pin_level (bar_pin ! 3) ?s"
  proof -
    have "pin_level (bar_pin ! 3) ?s = pin_level (bar_pin ! 3) (set_position 3 (boot 0))"
      by (rule pin_level_cong) simp_all
    then show ?thesis using set_position_lines [OF bar_lines_inv_boot, of 3 3 0] by simp
  qed
  have h: "m_update_func ?s = Show_score_blink" "0 \<le> m_score ?s" "m_score ?s \<le> MAX_SCORE"
    "0 \<le> m_blink_count ?s"
    by (simp_all add: f boot_fields MAX_SCORE_def)
  have hb: "bar_lines_inv ?s"
    by (rule bar_lines_inv_cong [OF base]) simp_all
  have h2: "m_update_func ?s2 = Show_score_blink" "0 \<le> m_score ?s2" "m_score ?s2 \<le> MAX_SCORE"
    "0 \<le> m_blink_count ?s2"
    by (simp_all add: MAX_SCORE_def)
  have hb2: "bar_lines_inv ?s2"
    by (rule bar_lines_inv_cong [OF base]) simp_all
  have h3: "m_update_func ?s3 = Show_score_blink" "0 \<le> m_score ?s3" "m_score ?s3 \<le> MAX_SCORE"
    "0 \<le> m_blink_count ?s3"
    by (simp_all add: MAX_SCORE_def)
  have hb3: "bar_lines_inv ?s3"
    by (rule bar_lines_inv_cong [OF base]) simp_all
  note t = score_blink [OF h hb, of ?i]
  note t2 = score_blink [OF h2 hb2, of ?i]
  note t3 = score_blink [OF h3 hb3, of ?i]
  have a: "m_valid (update ?i ?s) \<and> uint (m_value (update ?i ?s)) = 7"
    using t [THEN conjunct1] by (simp add: f boot_fields FRAME_PER_SEC_def)
  have b: "m_pos (update ?i ?s) = BAR_INVALID \<and> (\<forall>k<10. pin_level (bar_pin ! k) (update ?i ?s))"
    using t [THEN conjunct2, THEN conjunct2, THEN conjunct1]
    by (simp add: f boot_fields FRAME_PER_SEC_def)
  then have b3: "pin_level (bar_pin ! 3) (update ?i ?s)" by simp
  have c: "m_blink_count (run [?i] ?s) = 1"
    using t [THEN conjunct2, THEN conjunct2, THEN conjunct2, THEN conjunct2, THEN conjunct1,
        rule_format, of "[?i]"]
    by (simp add: f boot_fields FRAME_PER_SEC_def)
  have d: "\<not> m_valid (update ?i ?s2)"
    using t2 [THEN conjunct2, THEN conjunct1] by (simp add: FRAME_PER_SEC_def)
  have e: "m_pos (update ?i ?s3) = 7 \<and>
      (\<forall>k<10. (\<not> pin_level (bar_pin ! k) (update ?i ?s3)) = (int k = m_pos (update ?i ?s3)))"
    using t3 [THEN conjunct2, THEN conjunct2, THEN conjunct2, THEN conjunct1]
    by (simp add: FRAME_PER_SEC_def)
  have e7: "\<not> pin_level (bar_pin ! 7) (update ?i ?s3)"
    using e [THEN conjunct2, rule_format, of 7] e [THEN conjunct1] by simp
  have e3: "pin_level (bar_pin ! 3) (update ?i ?s3)"
    using e [THEN conjunct2, rule_format, of 3] e [THEN conjunct1] by simp
  show ?thesis using lit a b b3 c d e e7 e3 by blast
qed

section \<open>The result screens\<close>

text \<open>
  The interrupt handler runs \<open>update\<close> in a machine that differs from the one it
  started in by the timer and the display refresh only.
\<close>

lemma isr_update:
  obtains t where "isr i s = update i t"
    and "m_update_func t = m_update_func s" and "m_score t = m_score s"
    and "m_position t = m_position s" and "m_bar_count t = m_bar_count s"
    and "m_bar_speed_recip t = m_bar_speed_recip s"
    and "m_button_invalid_time t = m_button_invalid_time s"
    and "m_update_high_score t = m_update_high_score s" and "m_blink_count t = m_blink_count s"
    and "m_high_score t = m_high_score s" and "high_score_eeprom t = high_score_eeprom s"
    and "eeprom_writes t = eeprom_writes s" and "m_pos t = m_pos s"
proof -
  define t where "t = (if (global_timer s + 1) mod 4 = 0
    then change_digit (s\<lparr>global_timer := global_timer s + 1\<rparr>)
    else s\<lparr>global_timer := global_timer s + 1\<rparr>)"
  have "isr i s = update i t" by (simp add: isr_def Let_def t_def)
  then show ?thesis
    by (rule that) (simp_all add: t_def)
qed

lemma show_score_released:
  assumes "game_switch i"
  shows "m_score (show_score i s) = m_score s"
    and "m_position (show_score i s) = m_position s"
    and "m_bar_count (show_score i s) = m_bar_count s"
    and "m_bar_speed_recip (show_score i s) = m_bar_speed_recip s"
    and "m_button_invalid_time (show_score i s) = m_button_invalid_time s"
    and "m_update_func (show_score i s) =
           (if \<not> high_score_switch i then Show_high_score else m_update_func s)"
  using assms by (simp_all add: show_score_def Let_def)

lemma show_high_score_released:
  assumes "game_switch i"
  shows "m_score (show_high_score i s) = m_score s"
    and "m_position (show_high_score i s) = m_position s"
    and "m_bar_count (show_high_score i s) = m_bar_count s"
    and "m_bar_speed_recip (show_high_score i s) = m_bar_speed_recip s"
    and "m_button_invalid_time (show_high_score i s) = m_button_invalid_time s"
    and "m_update_func (show_high_score i s) = m_update_func s"
  using assms by (simp_all add: show_high_score_def Let_def)

lemma show_score_pressed:
  assumes "\<not> game_switch i"
  shows "m_score (show_score i s) = 0"
    and "m_position (show_score i s) = 0"
    and "m_bar_count (show_score i s) = 0"
    and "m_button_invalid_time (show_score i s) = 0"
    and "m_update_func (show_score i s) = Playing"
  using assms by (simp_all add: show_score_def Let_def init_game_fields)

lemma show_high_score_pressed:
  assumes "\<not> game_switch i"
  shows "m_score (show_high_score i s) = 0"
    and "m_position (show_high_score i s) = 0"
    and "m_bar_count (show_high_score i s) = 0"
    and "m_button_invalid_time (show_high_score i s) = 0"
    and "m_update_func (show_high_score i s) = Playing"
  using assms by (simp_all add: show_high_score_def Let_def init_game_fields)

lemma show_score_display:
  assumes "0 \<le> m_score s" "m_score s \<le> MAX_SCORE"
  shows "m_valid (show_score i s)" and "uint (m_value (show_score i s)) = m_score s"
  using set_number_score(1,2) [OF assms, of "set_position 0 s"] set_number_score(3) [OF assms]
  by (simp_all add: show_score_def Let_def init_game_fields)

lemma result_screen_step:
  assumes st: "m_update_func s = Show_score_blink \<or> m_update_func s = Show_score \<or>
      m_update_func s = Show_high_score"
    and rel: "game_switch i"
  shows "m_score (isr i s) = m_score s \<and>
         (m_update_func (isr i s) = Show_score_blink \<or> m_update_func (isr i s) = Show_score \<or>
          m_update_func (isr i s) = Show_high_score)"
proof -
  obtain t where t: "isr i s = update i t" "m_update_func t = m_update_func s"
    "m_score t = m_score s"
    by (rule isr_update)
  consider (blink) "m_update_func t = Show_score_blink" | (score) "m_update_func t = Show_score"
    | (high) "m_update_func t = Show_high_score"
    using st t(2) by auto
  then show ?thesis
  proof cases
    case blink
    then show ?thesis by (simp add: t update_def show_score_blink_fields)
  next
    case score
    then show ?thesis by (simp add: t(1,3) update_def show_score_released [OF rel])
  next
    case high
    then show ?thesis by (simp add: t(1,3) update_def show_high_score_released [OF rel])
  qed
qed

lemma result_screen_run:
  assumes "m_update_func s = Show_score_blink \<or> m_update_func s = Show_score \<or>
      m_update_func s = Show_high_score"
    and "\<forall>j \<in> set is. game_switch j"
  shows "m_score (run is s) = m_score s \<and>
         (m_update_func (run is s) = Show_score_blink \<or> m_update_func (run is s) = Show_score \<or>
          m_update_func (run is s) = Show_high_score)"
  using assms
proof (induction "is" arbitrary: s)
  case Nil
  then show ?case by simp
next
  case (Cons j js)
  have r: "game_switch j" using Cons.prems(2) by simp
  note a = result_screen_step [OF Cons.prems(1) r]
  have "\<forall>j \<in> set js. game_switch j" using Cons.prems(2) by simp
  from Cons.IH [OF a [THEN conjunct2] this] show ?case using a by simp
qed


lemma show_score_blink_valid:
  assumes "m_valid (show_score_blink i s)"
  shows "c_rem (m_blink_count s) FRAME_PER_SEC < c_div FRAME_PER_SEC 2"
proof (rule ccontr)
  assume "\<not> c_rem (m_blink_count s) FRAME_PER_SEC < c_div FRAME_PER_SEC 2"
  then have "\<not> m_valid (show_score_blink i s)"
    by (simp add: show_score_blink_def Let_def m_valid_erase_number)
  then show False using assms by simp
qed

lemma blink_run_complete_score:
  assumes st: "m_update_func s = Show_score_blink"
    and len: "m_blink_count s + int (length is) = FRAME_PER_SEC * 3" "is \<noteq> []"
  shows "m_score (run is s) = m_score s"
proof -
  obtain js j where js: "is = js @ [j]"
    using len(2) by (cases "is" rule: rev_cases) auto
  have "m_blink_count s + int (length js) < FRAME_PER_SEC * 3"
    using len(1) by (simp add: js)
  from blink_run [OF st this]
  have a: "m_update_func (run js s) = Show_score_blink" "m_score (run js s) = m_score s"
    by simp_all
  show ?thesis
    by (simp add: js run_append isr_show_score_blink [OF a(1)] a(2))
qed

lemma restart_recip:
  assumes "\<not> game_switch i"
  shows "m_bar_speed_recip (show_score i s) = calc_speed_recip (rand_value i) (s\<lparr>m_score := 0\<rparr>)"
    and "m_bar_speed_recip (show_high_score i s) =
           calc_speed_recip (rand_value i) (s\<lparr>m_score := 0\<rparr>)"
  using assms
  by (simp_all add: show_score_def show_high_score_def Let_def init_game_fields
      calc_speed_recip_def)

text \<open>
  From the tick that completes a round on, Score does not change while the blinking
  lasts, whatever the inputs are, nor afterwards as long as the play input is not
  asserted.
\<close>

lemma round_complete_score:
  assumes st: "m_update_func s = Show_score_blink" and z: "m_blink_count s = 0"
    and rel: "\<forall>n. 3 * FRAME_PER_SEC \<le> int n \<and> n < length is \<longrightarrow> game_switch (is ! n)"
  shows "m_score (run is s) = m_score s"
proof (cases "int (length is) < 3 * FRAME_PER_SEC")
  case True
  then have "m_blink_count s + int (length is) < FRAME_PER_SEC * 3" using z by simp
  from blink_run [OF st this] show ?thesis by simp
next
  case False
  define xs where "xs = take 1500 is"
  define ys where "ys = drop 1500 is"
  have l: "1500 \<le> length is" using False by (simp add: FRAME_PER_SEC_def)
  have i: "is = xs @ ys" by (simp add: xs_def ys_def)
  have lx: "length xs = 1500" using l by (simp add: xs_def)
  have a: "m_blink_count s + int (length xs) = FRAME_PER_SEC * 3"
    using z by (simp add: lx FRAME_PER_SEC_def)
  have n: "xs \<noteq> []" using lx by auto
  have 1: "m_update_func (run xs s) = Show_score" by (rule blink_run_complete [OF st a n])
  have 2: "m_score (run xs s) = m_score s" by (rule blink_run_complete_score [OF st a n])
  have r: "\<forall>j \<in> set ys. game_switch j"
  proof
    fix j assume "j \<in> set ys"
    then obtain m where m: "m < length ys" "ys ! m = j" by (auto simp: in_set_conv_nth)
    have "game_switch (is ! (1500 + m))"
      using rel m(1) by (simp add: ys_def FRAME_PER_SEC_def)
    then show "game_switch j" using m l by (simp add: ys_def)
  qed
  have "m_update_func (run xs s) = Show_score_blink \<or> m_update_func (run xs s) = Show_score \<or>
      m_update_func (run xs s) = Show_high_score"
    using 1 by simp
  from result_screen_run [OF this r] show ?thesis by (simp add: i run_append 2)
qed

text \<open>
  C10 (amended). The handler of ScoreBlink never changes Score, Position, the dwell
  counter, Speed Reciprocal or Lockout (nor the high-score mark or the high-score
  store); it adds 1 to its blink counter. The handlers of ShowingScore and
  ShowingHighScore leave the five unchanged on every tick on which the play input is not
  asserted; when it is asserted they start a new session: Score, Position, the dwell
  counter and Lockout become 0, Speed Reciprocal is recomputed for Score 0 and the state
  becomes Playing. The Score latched by the display in ShowingScore, and in ScoreBlink
  whenever something is latched, is the Score the handler started with; and from the
  tick that completes a round on, Score keeps the value it had at that tick during the
  1500 ticks of ScoreBlink whatever the inputs are, and afterwards for as long as the
  play input is not asserted.
\<close>

theorem result_screens_frame:
  "(m_update_func s = Show_score_blink \<longrightarrow>
      m_score (update i s) = m_score s \<and> m_position (update i s) = m_position s \<and>
      m_bar_count (update i s) = m_bar_count s \<and>
      m_bar_speed_recip (update i s) = m_bar_speed_recip s \<and>
      m_button_invalid_time (update i s) = m_button_invalid_time s \<and>
      m_update_high_score (update i s) = m_update_high_score s \<and>
      m_high_score (update i s) = m_high_score s \<and>
      eeprom_writes (update i s) = eeprom_writes s \<and>
      m_blink_count (update i s) = m_blink_count s + 1) \<and>
   ((m_update_func s = Show_score \<or> m_update_func s = Show_high_score) \<and> game_switch i \<longrightarrow>
      m_score (update i s) = m_score s \<and> m_position (update i s) = m_position s \<and>
      m_bar_count (update i s) = m_bar_count s \<and>
      m_bar_speed_recip (update i s) = m_bar_speed_recip s \<and>
      m_button_invalid_time (update i s) = m_button_invalid_time s) \<and>
   ((m_update_func s = Show_score \<or> m_update_func s = Show_high_score) \<and> \<not> game_switch i \<longrightarrow>
      m_score (update i s) = 0 \<and> m_position (update i s) = 0 \<and>
      m_bar_count (update i s) = 0 \<and> m_button_invalid_time (update i s) = 0 \<and>
      m_bar_speed_recip (update i s) = calc_speed_recip (rand_value i) (s\<lparr>m_score := 0\<rparr>) \<and>
      m_bar_speed_recip (update i s) = spec_speed_recip 0 (c_rem (int (rand_value i)) 40) \<and>
      m_update_func (update i s) = Playing) \<and>
   (0 \<le> m_score s \<and> m_score s \<le> MAX_SCORE \<longrightarrow>
      (m_update_func s = Show_score \<longrightarrow>
         m_valid (update i s) \<and> uint (m_value (update i s)) = m_score s) \<and>
      (m_update_func s = Show_score_blink \<and> m_valid (update i s) \<longrightarrow>
         uint (m_value (update i s)) = m_score s)) \<and>
   (m_update_func s = Playing \<and> m_bar_speed_recip s \<le> m_bar_count s + 1 \<and>
    19 \<le> m_position s + 1 \<longrightarrow>
      (\<forall>is. (\<forall>n. 3 * FRAME_PER_SEC \<le> int n \<and> n < length is \<longrightarrow> game_switch (is ! n)) \<longrightarrow>
            m_score (run is (update i s)) = m_score s))"
proof -
  have 1: "m_update_func s = Show_score_blink \<longrightarrow>
      m_score (update i s) = m_score s \<and> m_position (update i s) = m_position s \<and>
      m_bar_count (update i s) = m_bar_count s \<and>
      m_bar_speed_recip (update i s) = m_bar_speed_recip s \<and>
      m_button_invalid_time (update i s) = m_button_invalid_time s \<and>
      m_update_high_score (update i s) = m_update_high_score s \<and>
      m_high_score (update i s) = m_high_score s \<and>
      eeprom_writes (update i s) = eeprom_writes s \<and>
      m_blink_count (update i s) = m_blink_count s + 1"
    by (simp add: update_def show_score_blink_fields)
  have 2: "(m_update_func s = Show_score \<or> m_update_func s = Show_high_score) \<and> game_switch i \<longrightarrow>
      m_score (update i s) = m_score s \<and> m_position (update i s) = m_position s \<and>
      m_bar_count (update i s) = m_bar_count s \<and>
      m_bar_speed_recip (update i s) = m_bar_speed_recip s \<and>
      m_button_invalid_time (update i s) = m_button_invalid_time s"
    by (auto simp: update_def show_score_released show_high_score_released)
  have sp: "calc_speed_recip (rand_value i) (s\<lparr>m_score := 0\<rparr>) =
      spec_speed_recip 0 (c_rem (int (rand_value i)) 40)"
    using calc_speed_recip_range [of "s\<lparr>m_score := 0\<rparr>" "rand_value i"]
    by (simp add: calc_speed_recip_def spec_speed_recip_def Let_def max_def)
  have 3: "(m_update_func s = Show_score \<or> m_update_func s = Show_high_score) \<and> \<not> game_switch i \<longrightarrow>
      m_score (update i s) = 0 \<and> m_position (update i s) = 0 \<and>
      m_bar_count (update i s) = 0 \<and> m_button_invalid_time (update i s) = 0 \<and>
      m_bar_speed_recip (update i s) = calc_speed_recip (rand_value i) (s\<lparr>m_score := 0\<rparr>) \<and>
      m_bar_speed_recip (update i s) = spec_speed_recip 0 (c_rem (int (rand_value i)) 40) \<and>
      m_update_func (update i s) = Playing"
    unfolding sp [symmetric]
    by (auto simp: update_def show_score_pressed show_high_score_pressed restart_recip)
  have 4: "0 \<le> m_score s \<and> m_score s \<le> MAX_SCORE \<longrightarrow>
      (m_update_func s = Show_score \<longrightarrow>
         m_valid (update i s) \<and> uint (m_value (update i s)) = m_score s) \<and>
      (m_update_func s = Show_score_blink \<and> m_valid (update i s) \<longrightarrow>
         uint (m_value (update i s)) = m_score s)"
  proof (intro impI conjI; (elim conjE)?)
    assume sc: "0 \<le> m_score s" "m_score s \<le> MAX_SCORE" and st: "m_update_func s = Show_score"
    show "m_valid (update i s)" "uint (m_value (update i s)) = m_score s"
      using show_score_display [OF sc, of i] st by (simp_all add: update_def)
  next
    assume sc: "0 \<le> m_score s" "m_score s \<le> MAX_SCORE"
      and st: "m_update_func s = Show_score_blink" and v: "m_valid (update i s)"
    have u: "update i s = show_score_blink i s" using st by (simp add: update_def)
    have c: "c_rem (m_blink_count s) FRAME_PER_SEC < c_div FRAME_PER_SEC 2"
      using v unfolding u by (rule show_score_blink_valid)
    show "uint (m_value (update i s)) = m_score s"
      unfolding u show_score_blink_shown [OF c] by (simp add: set_number_score [OF sc])
  qed
  have 5: "m_update_func s = Playing \<and> m_bar_speed_recip s \<le> m_bar_count s + 1 \<and>
    19 \<le> m_position s + 1 \<longrightarrow>
      (\<forall>is. (\<forall>n. 3 * FRAME_PER_SEC \<le> int n \<and> n < length is \<longrightarrow> game_switch (is ! n)) \<longrightarrow>
            m_score (run is (update i s)) = m_score s)"
  proof (intro impI allI; (elim conjE)?)
    fix "is" :: "inputs list"
    assume st: "m_update_func s = Playing" and d: "m_bar_speed_recip s \<le> m_bar_count s + 1"
      and p: "19 \<le> m_position s + 1"
      and rel: "\<forall>n. 3 * FRAME_PER_SEC \<le> int n \<and> n < length is \<longrightarrow> game_switch (is ! n)"
    have u: "m_update_func (update i s) = Show_score_blink" "m_score (update i s) = m_score s"
      "m_blink_count (update i s) = 0"
      by (simp_all add: update_playing [OF st] playing_finish [OF d p] playing_round_over_fields)
    from round_complete_score [OF u(1) u(3) rel] show "m_score (run is (update i s)) = m_score s"
      by (simp add: u(2))
  qed
  show ?thesis using 1 2 3 4 5 by blast
qed


theorem result_screens_frame_witness:
  "m_score (update \<lparr>game_switch = True, high_score_switch = True, erase_score_switch = True, rand_value = 7\<rparr>
     ((boot 0)\<lparr>m_update_func := Show_score, m_score := 5\<rparr>)) = 5 \<and>
   m_valid (update \<lparr>game_switch = True, high_score_switch = True, erase_score_switch = True, rand_value = 7\<rparr>
     ((boot 0)\<lparr>m_update_func := Show_score, m_score := 5\<rparr>)) \<and>
   uint (m_value (update \<lparr>game_switch = True, high_score_switch = True, erase_score_switch = True, rand_value = 7\<rparr>
     ((boot 0)\<lparr>m_update_func := Show_score, m_score := 5\<rparr>))) = 5 \<and>
   m_score (update \<lparr>game_switch = True, high_score_switch = True, erase_score_switch = True, rand_value = 7\<rparr>
     ((boot 0)\<lparr>m_update_func := Show_score_blink, m_score := 5\<rparr>)) = 5 \<and>
   uint (m_value (update \<lparr>game_switch = True, high_score_switch = True, erase_score_switch = True, rand_value = 7\<rparr>
     ((boot 0)\<lparr>m_update_func := Show_score_blink, m_score := 5\<rparr>))) = 5 \<and>
   m_score (update \<lparr>game_switch = False, high_score_switch = True, erase_score_switch = True, rand_value = 7\<rparr>
     ((boot 0)\<lparr>m_update_func := Show_score, m_score := 5\<rparr>)) = 0 \<and>
   m_bar_speed_recip (update \<lparr>game_switch = False, high_score_switch = True, erase_score_switch = True, rand_value = 7\<rparr>
     ((boot 0)\<lparr>m_update_func := Show_score, m_score := 5\<rparr>)) = 26 \<and>
   m_update_func (update \<lparr>game_switch = False, high_score_switch = True, erase_score_switch = True, rand_value = 7\<rparr>
     ((boot 0)\<lparr>m_update_func := Show_score, m_score := 5\<rparr>)) = Playing \<and>
   m_score (run [\<lparr>game_switch = False, high_score_switch = True, erase_score_switch = True, rand_value = 7\<rparr>]
     (update \<lparr>game_switch = True, high_score_switch = True, erase_score_switch = True, rand_value = 7\<rparr>
       ((boot 0)\<lparr>m_update_func := Playing, m_score := 5, m_position := 18,
        m_bar_count := 23, m_bar_speed_recip := 24\<rparr>))) = 5"
proof -
  let ?i = "\<lparr>game_switch = True, high_score_switch = True, erase_score_switch = True, rand_value = 7\<rparr>"
  let ?p = "\<lparr>game_switch = False, high_score_switch = True, erase_score_switch = True, rand_value = 7\<rparr>"
  let ?a = "((boot 0)\<lparr>m_update_func := Show_score, m_score := 5\<rparr>)"
  let ?b = "((boot 0)\<lparr>m_update_func := Show_score_blink, m_score := 5\<rparr>)"
  let ?c = "((boot 0)\<lparr>m_update_func := Playing, m_score := 5, m_position := 18,
        m_bar_count := 23, m_bar_speed_recip := 24\<rparr>)"
  note a = result_screens_frame [of ?a ?i]
  note b = result_screens_frame [of ?b ?i]
  note c = result_screens_frame [of ?c ?i, THEN conjunct2, THEN conjunct2, THEN conjunct2,
      THEN conjunct2, rule_format, of "[?p]"]
  note d = result_screens_frame [of ?a ?p]
  have 1: "m_score (update ?i ?a) = 5"
    using a [THEN conjunct2, THEN conjunct1] by (simp add: boot_fields)
  have 2: "m_valid (update ?i ?a) \<and> uint (m_value (update ?i ?a)) = 5"
    using a [THEN conjunct2, THEN conjunct2, THEN conjunct2, THEN conjunct1]
    by (simp add: boot_fields MAX_SCORE_def)
  have 3: "m_score (update ?i ?b) = 5"
    using b [THEN conjunct1] by (simp add: boot_fields)
  have v: "m_valid (update ?i ?b)"
  proof -
    have p: "pow10 (nat Digit) = 100" by (simp add: Digit_def numeral_2_eq_2)
    show ?thesis
      by (simp add: update_def show_score_blink_shown boot_fields FRAME_PER_SEC_def c_rem_def
          c_div_def set_number_def p)
  qed
  have 4: "uint (m_value (update ?i ?b)) = 5"
    using b [THEN conjunct2, THEN conjunct2, THEN conjunct2, THEN conjunct1] v
    by (simp add: MAX_SCORE_def)
  have 5: "m_score (update ?p ?a) = 0 \<and> m_bar_speed_recip (update ?p ?a) = 26 \<and>
      m_update_func (update ?p ?a) = Playing"
    using d [THEN conjunct2, THEN conjunct2, THEN conjunct1]
    by (simp add: spec_speed_recip_def c_div_def c_rem_def)
  have 6: "m_score (run [?p] (update ?i ?c)) = 5"
    using c by (simp add: boot_fields FRAME_PER_SEC_def)
  show ?thesis using 1 2 3 4 5 6 by blast
qed

text \<open>
  With the play input asserted the result screens do change the members: from
  ShowingScore with Score 5 the tick leaves Score 0, and from ShowingHighScore with
  Lockout 50 it leaves Lockout 0.
\<close>

theorem result_screen_restart_counterexample:
  "m_update_func ((boot 0)\<lparr>m_update_func := Show_score, m_score := 5\<rparr>) = Show_score \<and>
   m_score ((boot 0)\<lparr>m_update_func := Show_score, m_score := 5\<rparr>) = 5 \<and>
   m_score (update \<lparr>game_switch = False, high_score_switch = True,
       erase_score_switch = True, rand_value = 7\<rparr>
     ((boot 0)\<lparr>m_update_func := Show_score, m_score := 5\<rparr>)) = 0 \<and>
   m_update_func ((boot 0)\<lparr>m_update_func := Show_high_score, m_button_invalid_time := 50\<rparr>)
     = Show_high_score \<and>
   m_button_invalid_time (update \<lparr>game_switch = False, high_score_switch = True,
       erase_score_switch = True, rand_value = 7\<rparr>
     ((boot 0)\<lparr>m_update_func := Show_high_score, m_button_invalid_time := 50\<rparr>)) = 0"
  by (simp add: update_def show_score_def show_high_score_def Let_def init_game_fields)


section \<open>The high score in memory\<close>

lemma m_high_score_store:
  "m_high_score (erase_hight_score s) = 0"
  "m_high_score (update_high_score c s) = (if c > m_high_score s then c else m_high_score s)"
  by (simp_all add: erase_hight_score_def update_high_score_def eeprom_write_byte_def Let_def)

lemma high_score_update_cases:
  "m_high_score (update i s) = m_high_score s \<or> m_high_score (update i s) = 0 \<or>
   m_high_score (update i s) = word_of_int (m_score s)"
proof (cases "m_update_func s")
  case Ready_to_start
  then show ?thesis
    by (simp add: update_def ready_to_start_def Let_def init_game_fields m_high_score_store)
next
  case Show_high_score
  then show ?thesis
    by (simp add: update_def show_high_score_def Let_def init_game_fields m_high_score_store)
next
  case Playing
  show ?thesis
  proof (cases "m_bar_speed_recip s \<le> m_bar_count s + 1 \<and> 19 \<le> m_position s + 1")
    case True
    then show ?thesis
      by (simp add: update_playing [OF Playing] playing_finish playing_round_over_def Let_def
          m_high_score_store get_high_score_def)
  next
    case False
    then show ?thesis
      by (simp add: update_playing [OF Playing] playing_continues_frame)
  qed
next
  case Show_score_blink
  then show ?thesis by (simp add: update_def show_score_blink_fields)
next
  case Show_score
  then show ?thesis
    by (simp add: update_def show_score_def Let_def init_game_fields m_high_score_store)
qed

lemma high_score_bound_isr:
  assumes g: "game_inv s" and m: "99 \<le> M" and h: "m_high_score s \<le> M"
  shows "m_high_score (isr i s) \<le> M"
proof -
  obtain t where t: "isr i s = update i t" "m_score t = m_score s" "m_high_score t = m_high_score s"
    by (rule isr_update)
  have sc: "0 \<le> m_score s" "m_score s \<le> MAX_SCORE" using g by (simp_all add: game_inv_def)
  have "uint (word_of_int (m_score s) :: u8) \<le> 99"
    using word_of_score [OF sc] sc by (simp add: MAX_SCORE_def)
  then have "(word_of_int (m_score s) :: u8) \<le> 99" by (simp add: word_le_def)
  then have w: "(word_of_int (m_score s) :: u8) \<le> M" using m by simp
  show ?thesis
    using high_score_update_cases [of i t] h w by (auto simp: t)
qed

lemma high_score_bound_run:
  assumes "game_inv s" "99 \<le> M" "m_high_score s \<le> M"
  shows "m_high_score (run is s) \<le> M"
  using assms
proof (induction "is" arbitrary: s)
  case Nil
  then show ?case by simp
next
  case (Cons j js)
  show ?case
    using Cons.IH [OF game_inv_isr [OF Cons.prems(1)] Cons.prems(2)
        high_score_bound_isr [OF Cons.prems]]
    by simp
qed

text \<open>
  C9 (amended). The high score held in memory at the start is the byte the EEPROM cell
  holds, whatever it is: nothing checks it and nothing replaces it by 0. From then on
  the value in memory never exceeds the larger of that byte and 99; so it is bounded by
  99 at every tick if the cell held a value of at most 99, and it is 0 at the start if
  the cell held 0.
\<close>

theorem high_score_loaded:
  "get_high_score (boot cell) = cell \<and>
   (\<forall>is. get_high_score (run is (boot cell)) \<le> max cell 99) \<and>
   (cell \<le> 99 \<longrightarrow> (\<forall>is. get_high_score (run is (boot cell)) \<le> 99))"
proof -
  have 1: "get_high_score (boot cell) = cell"
    by (simp add: get_high_score_def boot_fields)
  have 2: "get_high_score (run is (boot cell)) \<le> max cell 99" for "is"
    unfolding get_high_score_def
    by (rule high_score_bound_run [OF game_inv_boot]) (simp_all add: boot_fields)
  have 3: "cell \<le> 99 \<longrightarrow> (\<forall>is. get_high_score (run is (boot cell)) \<le> 99)"
    using 2 by (auto simp: max_def)
  show ?thesis using 1 2 3 by blast
qed

theorem high_score_loaded_witness:
  "get_high_score (boot 30) = 30 \<and>
   get_high_score (run [\<lparr>game_switch = False, high_score_switch = True,
       erase_score_switch = True, rand_value = 7\<rparr>] (boot 30)) \<le> 99"
proof -
  note t = high_score_loaded [of 30]
  have a: "get_high_score (boot 30) = 30" using t by simp
  have b: "get_high_score (run [\<lparr>game_switch = False, high_score_switch = True,
       erase_score_switch = True, rand_value = 7\<rparr>] (boot 30)) \<le> 99"
  proof -
    have c: "(30::u8) \<le> 99" by simp
    show ?thesis by (rule t [THEN conjunct2, THEN conjunct2, rule_format, OF c])
  qed
  show ?thesis using a b by blast
qed

text \<open>
  An erased EEPROM cell reads 255: the high score in memory is then 255, which is
  neither 0 nor at most 99.
\<close>

theorem high_score_unchecked_counterexample:
  "get_high_score (boot 255) = 255 \<and> \<not> get_high_score (boot 255) \<le> 99 \<and>
   get_high_score (boot 255) \<noteq> 0"
  by (simp add: get_high_score_def boot_fields)

end
